theory Spec2Isabelle
  imports Complex_Main "HOL-Library.FSet" "HOL-Library.AList" "HOL-Library.Char_ord"
    "HOL-Library.List_Lexorder" "HOL-Library.Product_Lexorder"
begin

section \<open>Reference Set Encoding: a model of the three scripts\<close>

text \<open>
  The development follows \<^verbatim>\<open>ref-set-generator/generator.py\<close>,
  \<^verbatim>\<open>encoder/ref_set_processor.py\<close> and \<^verbatim>\<open>encoder/data_encoder.py\<close>.

  Conventions of the model.
  \<^item> A Python \<^verbatim>\<open>dict\<close> is an association list in insertion order; its keys are
    distinct, which theorems state as \<open>distinct (map fst d)\<close> where they need it.
  \<^item> A Python \<^verbatim>\<open>set\<close> of q-grams is a finite set (\<open>string fset\<close>); a q-gram is a
    \<open>string\<close>, compared lexicographically as Python compares \<^verbatim>\<open>str\<close>.
  \<^item> Every \<^verbatim>\<open>raise\<close>, failed \<^verbatim>\<open>assert\<close> and failing built-in is a value
    \<open>Inl e\<close> of the result type \<open>error + 'a\<close>.
  \<^item> A loop that may run forever takes fuel and returns \<open>None\<close> when the fuel is used up.
  \<^item> Console output and timing are left out: they do not influence any value.
\<close>

datatype error =
  ValueError | KeyError | AssertionError | ZeroDivisionError | AttributeError | UnboundLocalError
  | ModuleNotFoundError

subsection \<open>Floating point\<close>

text \<open>
  The scripts divide and subtract in binary floating point. A float is modelled by the
  rational it denotes, and an operation by the exact result followed by a rounding.
  Of the rounding nothing is used but three properties of IEEE round-to-nearest: it is
  monotone, it commutes with negation, and it leaves 1 unchanged. The type \<open>rounding\<close>
  collects the functions with these properties; \<open>exact\<close> is the one that does not round
  (the right one wherever every intermediate result is representable). Overflow to
  infinity is outside the model.
\<close>

typedef rounding = "{f :: rat \<Rightarrow> rat. mono f \<and> (\<forall>x. f (- x) = - f x) \<and> f 1 = 1}"
  by (rule exI[of _ id]) (auto simp: mono_def)

setup_lifting type_definition_rounding

lift_definition fl :: "rounding \<Rightarrow> rat \<Rightarrow> rat" is "\<lambda>f. f" .

lift_definition exact :: rounding is id
  by (auto simp: mono_def)

subsection \<open>data\_encoder.py\<close>

text \<open>
  A record object is the dictionary \<^verbatim>\<open>{Q_GRAM_ATTR: qs, SIGNATURE_ATTR: sg}\<close>. Before
  \<^verbatim>\<open>gen_init_int_signature\<close> there is no signature (\<open>unit\<close>), after it the signature
  is the ranked list of (reference-set index, similarity) pairs, and after
  \<^verbatim>\<open>extract_signatures\<close> it is the bit array.
\<close>

record 'sg rec_obj =
  record_q_gram :: "string fset"
  signature :: 'sg

type_synonym 'sg record_store = "(string \<times> 'sg rec_obj) list"

type_synonym indexed_ref_sets = "(nat \<times> string fset) list"

text \<open>\<^verbatim>\<open>q_gram_jacc_sim\<close>: the quotient raises on an empty union; the assertion follows it.\<close>

definition q_gram_jacc_sim :: "rounding \<Rightarrow> string fset \<Rightarrow> string fset \<Rightarrow> error + rat" where
  "q_gram_jacc_sim r q_gram_set1 q_gram_set2 =
     (let q_gram_intersection_set = q_gram_set1 |\<inter>| q_gram_set2;
          q_gram_union_set = q_gram_set1 |\<union>| q_gram_set2
      in if fcard q_gram_union_set = 0 then Inl ZeroDivisionError
         else
           (let jacc_sim = fl r (of_nat (fcard q_gram_intersection_set) /
                                 of_nat (fcard q_gram_union_set))
            in if 0 \<le> jacc_sim \<and> jacc_sim \<le> 1 then Inr jacc_sim else Inl AssertionError))"

text \<open>
  The inner loop of \<^verbatim>\<open>gen_init_int_signature\<close>: \<^verbatim>\<open>record_sim_store\<close> as the list of
  its items, in the order of \<^verbatim>\<open>indexed_r\<close>. Its length is
  \<^verbatim>\<open>non_zero_count_per_record\<close>.
\<close>

fun record_sim_store :: "rounding \<Rightarrow> string fset \<Rightarrow> indexed_ref_sets \<Rightarrow> error + (nat \<times> rat) list" where
  "record_sim_store r qs [] = Inr []"
| "record_sim_store r qs ((qs_r_index, qs_r) # rest) =
     (if qs_r |\<inter>| qs \<noteq> {||} then
        (case q_gram_jacc_sim r qs qs_r of
           Inl e \<Rightarrow> Inl e
         | Inr s \<Rightarrow>
             (case record_sim_store r qs rest of
                Inl e \<Rightarrow> Inl e
              | Inr acc \<Rightarrow> Inr ((qs_r_index, s) # acc)))
      else record_sim_store r qs rest)"

definition non_zero_count_per_record :: "string fset \<Rightarrow> indexed_ref_sets \<Rightarrow> nat" where
  "non_zero_count_per_record qs indexed_r =
     length (filter (\<lambda>(qs_r_index, qs_r). qs_r |\<inter>| qs \<noteq> {||}) indexed_r)"

text \<open>Python's \<^verbatim>\<open>xs[:n]\<close>: a negative \<open>n\<close> counts from the end.\<close>

definition py_slice_to :: "'a list \<Rightarrow> int \<Rightarrow> 'a list" where
  "py_slice_to xs n = (if n < 0 then take (nat (int (length xs) + n)) xs else take (nat n) xs)"

text \<open>
  \<^verbatim>\<open>sorted(..., key=lambda item: item[1], reverse=True)\<close> is stable: entries of equal
  similarity keep their order. So is \<open>sort_key\<close> on the negated similarity.
\<close>

definition sorted_sim_store :: "(nat \<times> rat) list \<Rightarrow> (nat \<times> rat) list" where
  "sorted_sim_store sims = sort_key (\<lambda>item. - snd item) sims"

text \<open>The body of the loop over the records: the intermediate signature of one record.\<close>

definition init_signature ::
  "rounding \<Rightarrow> string fset \<Rightarrow> indexed_ref_sets \<Rightarrow> int \<Rightarrow> error + (nat \<times> rat) list" where
  "init_signature r qs indexed_r init_sign_length =
     (case record_sim_store r qs indexed_r of
        Inl e \<Rightarrow> Inl e
      | Inr sims \<Rightarrow>
          Inr (py_slice_to (sorted_sim_store sims) (min init_sign_length (int (length sims)))))"

fun init_signatures ::
  "rounding \<Rightarrow> unit record_store \<Rightarrow> indexed_ref_sets \<Rightarrow> int \<Rightarrow>
   error + (nat \<times> rat) list record_store" where
  "init_signatures r [] indexed_r init_sign_length = Inr []"
| "init_signatures r ((rec_id, rec_obj) # rest) indexed_r init_sign_length =
     (case init_signature r (record_q_gram rec_obj) indexed_r init_sign_length of
        Inl e \<Rightarrow> Inl e
      | Inr sg \<Rightarrow>
          (case init_signatures r rest indexed_r init_sign_length of
             Inl e \<Rightarrow> Inl e
           | Inr store \<Rightarrow>
               Inr ((rec_id, \<lparr>record_q_gram = record_q_gram rec_obj, signature = sg\<rparr>) # store)))"

text \<open>\<^verbatim>\<open>min(...)\<close> of no records raises a \<^verbatim>\<open>ValueError\<close>.\<close>

definition gen_init_int_signature ::
  "rounding \<Rightarrow> unit record_store \<Rightarrow> indexed_ref_sets \<Rightarrow> int \<Rightarrow>
   error + (nat \<times> (nat \<times> rat) list record_store)" where
  "gen_init_int_signature r record_store indexed_r init_sign_length =
     (case init_signatures r record_store indexed_r init_sign_length of
        Inl e \<Rightarrow> Inl e
      | Inr store \<Rightarrow>
          if store = [] then Inl ValueError
          else Inr (min_list (map (\<lambda>(rec_id, rec). length (signature rec)) store), store))"

text \<open>\<^verbatim>\<open>generate_bit_array_signature\<close>: a bit array is a list of booleans.\<close>

fun set_positions :: "nat \<Rightarrow> bool list \<Rightarrow> nat list \<Rightarrow> error + bool list" where
  "set_positions bit_array_length encoded_ba [] = Inr encoded_ba"
| "set_positions bit_array_length encoded_ba (pos # positions) =
     (if pos < bit_array_length
      then set_positions bit_array_length (encoded_ba[pos := True]) positions
      else Inl AssertionError)"

definition generate_bit_array_signature :: "nat \<Rightarrow> nat list \<Rightarrow> error + bool list" where
  "generate_bit_array_signature bit_array_length positions =
     set_positions bit_array_length (replicate bit_array_length False) positions"

fun extract_records ::
  "nat \<Rightarrow> (nat \<times> rat) list record_store \<Rightarrow> nat \<Rightarrow> error + bool list record_store" where
  "extract_records qs_r_count [] n1_bits = Inr []"
| "extract_records qs_r_count ((rec_id, rec_obj) # rest) n1_bits =
     (let record_sim_store = signature rec_obj in
      if \<not> n1_bits \<le> length record_sim_store then Inl AssertionError
      else
        (case generate_bit_array_signature qs_r_count
                (map fst (take n1_bits record_sim_store)) of
           Inl e \<Rightarrow> Inl e
         | Inr sg \<Rightarrow>
             (case extract_records qs_r_count rest n1_bits of
                Inl e \<Rightarrow> Inl e
              | Inr store \<Rightarrow>
                  Inr ((rec_id, \<lparr>record_q_gram = record_q_gram rec_obj, signature = sg\<rparr>) # store))))"

definition extract_signatures ::
  "indexed_ref_sets \<Rightarrow> (nat \<times> rat) list record_store \<Rightarrow> nat \<Rightarrow> error + bool list record_store" where
  "extract_signatures indexed_ref_sets record_store n1_bits =
     extract_records (length indexed_ref_sets) record_store n1_bits"

subsection \<open>ref\_set\_processor.py\<close>

text \<open>
  A weighed reference set is the dictionary with the three attributes
  \<^verbatim>\<open>RANDOM_Q_GRAM_SET_ATTR_WITH_FREQ\<close>, \<^verbatim>\<open>RANDOM_SET_ONLY_ATTR\<close> and
  \<^verbatim>\<open>WEIGHTED_SCORE_ATTR\<close>. The first is a Python list when \<^verbatim>\<open>weigh_random_sets\<close>
  builds it and a Python set after a swap. The model keeps a list in both cases; for a
  set the list has no repetition and its order is immaterial, since the script only
  sorts it (by a key that orders distinct elements totally), sums over it, takes its
  length and tests membership.
\<close>

record weighed_set =
  random_q_gram_set_with_freq :: "(string \<times> int) list"
  random_set_only :: "string fset"
  weighted_score :: rat

type_synonym weighed_random_sets = "(nat \<times> weighed_set) list"

text \<open>\<^verbatim>\<open>weigh_random_sets\<close>: an empty row makes the mean divide by zero.\<close>

definition qs_r_with_freq :: "(string \<rightharpoonup> int) \<Rightarrow> string list \<Rightarrow> (string \<times> int) list" where
  "qs_r_with_freq q_gram_freq qs_r =
     map (\<lambda>q_gram. (q_gram, case q_gram_freq q_gram of Some f \<Rightarrow> f | None \<Rightarrow> 1)) qs_r"

fun weigh_random_sets ::
  "rounding \<Rightarrow> (nat \<times> string list) list \<Rightarrow> (string \<rightharpoonup> int) \<Rightarrow> error + weighed_random_sets" where
  "weigh_random_sets r [] q_gram_freq = Inr []"
| "weigh_random_sets r ((index, qs_r) # rest) q_gram_freq =
     (let with_freq = qs_r_with_freq q_gram_freq qs_r;
          freq_sum = sum_list (map snd with_freq)
      in if length with_freq = 0 then Inl ZeroDivisionError
         else
           (case weigh_random_sets r rest q_gram_freq of
              Inl e \<Rightarrow> Inl e
            | Inr weighed \<Rightarrow>
                Inr ((index,
                      \<lparr>random_q_gram_set_with_freq = with_freq,
                       random_set_only = fset_of_list qs_r,
                       weighted_score = fl r (of_int freq_sum / of_nat (length with_freq))\<rparr>)
                     # weighed)))"

text \<open>
  \<^verbatim>\<open>min(items, key=...)\<close> and \<^verbatim>\<open>max(items, key=...)\<close>: the first item of least
  (greatest) key; a \<^verbatim>\<open>ValueError\<close> on no items.
\<close>

definition py_min :: "('a \<Rightarrow> 'k::linorder) \<Rightarrow> 'a list \<Rightarrow> error + 'a" where
  "py_min key xs =
     (case xs of
        [] \<Rightarrow> Inl ValueError
      | x # rest \<Rightarrow> Inr (fold (\<lambda>y best. if key y < key best then y else best) rest x))"

definition py_max :: "('a \<Rightarrow> 'k::linorder) \<Rightarrow> 'a list \<Rightarrow> error + 'a" where
  "py_max key xs =
     (case xs of
        [] \<Rightarrow> Inl ValueError
      | x # rest \<Rightarrow> Inr (fold (\<lambda>y best. if key best < key y then y else best) rest x))"

text \<open>
  Lines 28 and 29: the key of both selections is the pair (weighted score, index),
  compared lexicographically.
\<close>

definition score_index_key :: "nat \<times> weighed_set \<Rightarrow> rat \<times> nat" where
  "score_index_key x = (weighted_score (snd x), fst x)"

definition select_min_max ::
  "weighed_random_sets \<Rightarrow> error + ((nat \<times> weighed_set) \<times> (nat \<times> weighed_set))" where
  "select_min_max weighed_random_sets =
     (case py_min score_index_key weighed_random_sets of
        Inl e \<Rightarrow> Inl e
      | Inr min_item \<Rightarrow>
          (case py_max score_index_key weighed_random_sets of
             Inl e \<Rightarrow> Inl e
           | Inr max_item \<Rightarrow> Inr (min_item, max_item)))"

text \<open>
  Line 22 collects the reference sets as \<^emph>\<open>tuples\<close>; line 50 looks a Python \<^emph>\<open>set\<close> up
  among them. Python hashes an unhashable set operand of \<^verbatim>\<open>in\<close> as the frozenset of
  its elements. The two kinds of value are kept apart here as Python keeps them apart: a
  frozenset never equals a tuple.
\<close>

datatype pyval = PyTuple "(string \<times> int) list" | PyFrozenset "(string \<times> int) fset"

definition random_sets_of :: "weighed_random_sets \<Rightarrow> pyval set" where
  "random_sets_of weighed_random_sets =
     set (map (\<lambda>(index, item). PyTuple (random_q_gram_set_with_freq item)) weighed_random_sets)"

text \<open>Lines 31 and 32.\<close>

definition sorted_max_set_of :: "weighed_set \<Rightarrow> (string \<times> int) list" where
  "sorted_max_set_of max_set =
     rev (sort_key (\<lambda>x. (snd x, fst x)) (random_q_gram_set_with_freq max_set))"

definition sorted_min_set_of :: "weighed_set \<Rightarrow> (string \<times> int) list" where
  "sorted_min_set_of min_set =
     sort_key (\<lambda>x. (snd x, fst x)) (random_q_gram_set_with_freq min_set)"

text \<open>
  Lines 42 to 47: the set comprehension that replaces \<open>old\<close> by \<open>new\<close>, and the mean
  frequency of a set (which raises on the empty set).
\<close>

definition replace_element ::
  "(string \<times> int) \<Rightarrow> (string \<times> int) \<Rightarrow> (string \<times> int) list \<Rightarrow> (string \<times> int) list" where
  "replace_element old new elements =
     remdups (map (\<lambda>element. if element = old then new else element) elements)"

definition value_weight :: "rounding \<Rightarrow> (string \<times> int) list \<Rightarrow> error + rat" where
  "value_weight r modified_value =
     (if length modified_value = 0 then Inl ZeroDivisionError
      else Inr (fl r (of_int (sum_list (map snd modified_value)) /
                      of_nat (length modified_value))))"

text \<open>
  What an accepted swap writes: the two modified sets and their weights.
\<close>

record swap =
  modified_min_value :: "(string \<times> int) list"
  modified_min_value_weight :: rat
  modified_max_value :: "(string \<times> int) list"
  modified_max_value_weight :: rat

text \<open>
  Lines 42 to 59 for one pair of elements: \<open>Inr None\<close> when the test of line 50 fails,
  \<open>Inr (Some sw)\<close> when the swap is accepted and the assertion of line 58 holds.
\<close>

definition try_swap ::
  "rounding \<Rightarrow> pyval set \<Rightarrow> weighed_set \<Rightarrow> weighed_set \<Rightarrow>
   (string \<times> int) \<Rightarrow> (string \<times> int) \<Rightarrow> error + swap option" where
  "try_swap r random_sets min_set max_set min_element max_element =
     (let modified_min = replace_element min_element max_element
                           (random_q_gram_set_with_freq min_set);
          modified_max = replace_element max_element min_element
                           (random_q_gram_set_with_freq max_set)
      in case value_weight r modified_min of
           Inl e \<Rightarrow> Inl e
         | Inr min_weight \<Rightarrow>
             (case value_weight r modified_max of
                Inl e \<Rightarrow> Inl e
              | Inr max_weight \<Rightarrow>
                  (let old_range = fl r (weighted_score max_set - weighted_score min_set);
                       new_range = \<bar>fl r (max_weight - min_weight)\<bar>
                   in if new_range < old_range
                         \<and> PyFrozenset (fset_of_list modified_min) \<notin> random_sets
                         \<and> PyFrozenset (fset_of_list modified_max) \<notin> random_sets
                      then
                        (if length modified_min \<noteq> length (random_q_gram_set_with_freq min_set)
                         then Inl AssertionError
                         else Inr (Some \<lparr>modified_min_value = modified_min,
                                         modified_min_value_weight = min_weight,
                                         modified_max_value = modified_max,
                                         modified_max_value_weight = max_weight\<rparr>))
                      else Inr None)))"

text \<open>
  The loop of line 40 over \<^verbatim>\<open>sorted_max_set\<close>; the number threaded through is
  \<^verbatim>\<open>max_element_index\<close>. A rejected pair does not end the loop.
\<close>

fun scan_max_set ::
  "rounding \<Rightarrow> pyval set \<Rightarrow> weighed_set \<Rightarrow> weighed_set \<Rightarrow> (string \<times> int) list \<Rightarrow>
   (string \<times> int) \<Rightarrow> (string \<times> int) list \<Rightarrow> nat \<Rightarrow> error + (swap option \<times> nat)" where
  "scan_max_set r random_sets min_set max_set sorted_min_set min_element [] max_element_index =
     Inr (None, max_element_index)"
| "scan_max_set r random_sets min_set max_set sorted_min_set min_element (max_element # rest)
     max_element_index =
     (if max_element \<notin> set sorted_min_set \<and> snd max_element > snd min_element then
        (case try_swap r random_sets min_set max_set min_element max_element of
           Inl e \<Rightarrow> Inl e
         | Inr (Some sw) \<Rightarrow> Inr (Some sw, max_element_index)
         | Inr None \<Rightarrow>
             scan_max_set r random_sets min_set max_set sorted_min_set min_element rest
               (max_element_index + 1))
      else scan_max_set r random_sets min_set max_set sorted_min_set min_element rest
             (max_element_index + 1))"

text \<open>
  The loop of line 37 over \<^verbatim>\<open>sorted_min_set\<close>. \<^verbatim>\<open>max_element_index\<close> is unbound
  (\<open>None\<close>) until the inner loop is entered for the first time.
\<close>

fun scan_min_set ::
  "rounding \<Rightarrow> pyval set \<Rightarrow> weighed_set \<Rightarrow> weighed_set \<Rightarrow> (string \<times> int) list \<Rightarrow>
   (string \<times> int) list \<Rightarrow> (string \<times> int) list \<Rightarrow> nat \<Rightarrow> nat option \<Rightarrow>
   error + (swap option \<times> nat \<times> nat option)" where
  "scan_min_set r random_sets min_set max_set sorted_min_set sorted_max_set []
     min_element_index max_element_index =
     Inr (None, min_element_index, max_element_index)"
| "scan_min_set r random_sets min_set max_set sorted_min_set sorted_max_set (min_element # rest)
     min_element_index max_element_index =
     (if min_element \<notin> set sorted_max_set then
        (case scan_max_set r random_sets min_set max_set sorted_min_set min_element
                sorted_max_set 0 of
           Inl e \<Rightarrow> Inl e
         | Inr (Some sw, idx) \<Rightarrow> Inr (Some sw, min_element_index + 1, Some idx)
         | Inr (None, idx) \<Rightarrow>
             scan_min_set r random_sets min_set max_set sorted_min_set sorted_max_set rest
               (min_element_index + 1) (Some idx))
      else scan_min_set r random_sets min_set max_set sorted_min_set sorted_max_set rest
             (min_element_index + 1) max_element_index)"

text \<open>Lines 62 to 70: the three attributes of a modified reference set.\<close>

definition modified_set :: "(string \<times> int) list \<Rightarrow> rat \<Rightarrow> weighed_set" where
  "modified_set modified_value modified_value_weight =
     \<lparr>random_q_gram_set_with_freq = modified_value,
      random_set_only = fset_of_list (map fst modified_value),
      weighted_score = modified_value_weight\<rparr>"

text \<open>
  One pass of the loop of line 27. \<^verbatim>\<open>max_element_index\<close> is a local variable of the
  function: it is unbound (\<open>None\<close>) before the first pass, and a pass that never enters
  the loop of line 40 finds the value the pass before it has left; so a pass takes it
  and returns it. \<^verbatim>\<open>min_element_index\<close> is set to 0 in every pass. The result is
  \<open>Some pool\<close> after an accepted swap, and \<open>None\<close> when no pair is accepted and the two
  assertions of lines 85 and 86 hold (\<^verbatim>\<open>stop_processing\<close>). The swap counters of the
  script are only printed.
\<close>

definition swap_round ::
  "rounding \<Rightarrow> pyval set \<Rightarrow> nat option \<Rightarrow> weighed_random_sets \<Rightarrow>
   error + (weighed_random_sets option \<times> nat option)" where
  "swap_round r random_sets max_element_index weighed_random_sets =
     (case select_min_max weighed_random_sets of
        Inl e \<Rightarrow> Inl e
      | Inr ((min_key, min_set), (max_key, max_set)) \<Rightarrow>
          (let sorted_max_set = sorted_max_set_of max_set;
               sorted_min_set = sorted_min_set_of min_set
           in case scan_min_set r random_sets min_set max_set sorted_min_set sorted_max_set
                     sorted_min_set 0 max_element_index of
                Inl e \<Rightarrow> Inl e
              | Inr (Some sw, min_element_index, max_element_index') \<Rightarrow>
                  Inr (Some
                    (AList.update max_key
                       (modified_set (modified_max_value sw) (modified_max_value_weight sw))
                       (AList.update min_key
                          (modified_set (modified_min_value sw) (modified_min_value_weight sw))
                          weighed_random_sets)),
                    max_element_index')
              | Inr (None, min_element_index, max_element_index') \<Rightarrow>
                  (case max_element_index' of
                     None \<Rightarrow> Inl UnboundLocalError
                   | Some idx \<Rightarrow>
                       if length sorted_max_set \<noteq> idx then Inl AssertionError
                       else if length sorted_min_set \<noteq> min_element_index then Inl AssertionError
                       else Inr (None, max_element_index'))))"

text \<open>
  \<^verbatim>\<open>frequency_based_rank_swapping\<close>: \<^verbatim>\<open>random_sets\<close> is computed once, before the
  loop, and never updated. The loop has no bound in the script; here it takes fuel.
\<close>

fun swap_loop ::
  "nat \<Rightarrow> rounding \<Rightarrow> pyval set \<Rightarrow> nat option \<Rightarrow> weighed_random_sets \<Rightarrow>
   (error + weighed_random_sets) option" where
  "swap_loop 0 r random_sets max_element_index weighed_random_sets = None"
| "swap_loop (Suc fuel) r random_sets max_element_index weighed_random_sets =
     (case swap_round r random_sets max_element_index weighed_random_sets of
        Inl e \<Rightarrow> Some (Inl e)
      | Inr (None, max_element_index') \<Rightarrow> Some (Inr weighed_random_sets)
      | Inr (Some swapped, max_element_index') \<Rightarrow>
          swap_loop fuel r random_sets max_element_index' swapped)"

definition frequency_based_rank_swapping ::
  "nat \<Rightarrow> rounding \<Rightarrow> weighed_random_sets \<Rightarrow> (error + weighed_random_sets) option" where
  "frequency_based_rank_swapping fuel r weighed_random_sets =
     swap_loop fuel r (random_sets_of weighed_random_sets) None weighed_random_sets"

text \<open>
  The pool after \<open>n\<close> accepted swaps, with the value of \<^verbatim>\<open>max_element_index\<close> then,
  if the script gets that far.
\<close>

fun after_swaps ::
  "nat \<Rightarrow> rounding \<Rightarrow> pyval set \<Rightarrow> nat option \<Rightarrow> weighed_random_sets \<Rightarrow>
   (weighed_random_sets \<times> nat option) option" where
  "after_swaps 0 r random_sets max_element_index weighed_random_sets =
     Some (weighed_random_sets, max_element_index)"
| "after_swaps (Suc n) r random_sets max_element_index weighed_random_sets =
     (case swap_round r random_sets max_element_index weighed_random_sets of
        Inr (Some swapped, max_element_index') \<Rightarrow>
          after_swaps n r random_sets max_element_index' swapped
      | _ \<Rightarrow> None)"

subsection \<open>generator.py\<close>

text \<open>
  \<^verbatim>\<open>random.sample(population, k)\<close> raises a \<^verbatim>\<open>ValueError\<close> when \<open>k\<close> is negative or
  exceeds the size of the population, and otherwise returns the elements at \<open>k\<close> pairwise
  different positions; which positions, the state of the seeded generator decides. That
  generator is modelled by an arbitrary stream of numbers \<open>rng\<close> and a position in it:
  \<open>draw\<close> takes the elements one after another from the positions not yet taken. Every
  choice of positions, in every order, is the result for some stream, so a theorem for
  all streams holds for every seed.
\<close>

fun draw :: "(nat \<Rightarrow> nat) \<Rightarrow> nat \<Rightarrow> 'a list \<Rightarrow> nat \<Rightarrow> 'a list" where
  "draw rng pos population 0 = []"
| "draw rng pos population (Suc n) =
     (let i = rng pos mod length population
      in population ! i # draw rng (Suc pos) (take i population @ drop (Suc i) population) n)"

definition random_sample ::
  "(nat \<Rightarrow> nat) \<Rightarrow> nat \<Rightarrow> 'a list \<Rightarrow> int \<Rightarrow> error + ('a list \<times> nat)" where
  "random_sample rng pos population k =
     (if k < 0 \<or> int (length population) < k then Inl ValueError
      else Inr (draw rng pos population (nat k), pos + nat k))"

text \<open>
  \<^verbatim>\<open>q_gram_counter\<close>: the dictionary from an occurrence count to the list of q-grams
  that have been placed in that many reference sets.
\<close>

type_synonym counter = "(int \<times> string list) list"

definition check_q_gram_availability :: "counter \<Rightarrow> int \<Rightarrow> bool" where
  "check_q_gram_availability q_gram_counter k =
     list_all (\<lambda>(key, value). \<not> (key < k \<and> 0 < length value)) q_gram_counter"

text \<open>
  \<^verbatim>\<open>update_q_gram_counter\<close>: a missing key raises a \<^verbatim>\<open>KeyError\<close>, and
  \<^verbatim>\<open>list.remove\<close> of an absent q-gram a \<^verbatim>\<open>ValueError\<close>.
\<close>

fun update_q_gram_counter :: "counter \<Rightarrow> string list \<Rightarrow> int \<Rightarrow> error + counter" where
  "update_q_gram_counter q_gram_counter [] key = Inr q_gram_counter"
| "update_q_gram_counter q_gram_counter (q_gram # q_grams) key =
     (case map_of q_gram_counter key of
        None \<Rightarrow> Inl KeyError
      | Some bucket \<Rightarrow>
          if q_gram \<notin> set bucket then Inl ValueError
          else
            (let removed = AList.update key (remove1 q_gram bucket) q_gram_counter;
                 deleted = (if length (remove1 q_gram bucket) = 0
                            then AList.delete key removed else removed);
                 next_key = key + 1;
                 created = (if map_of deleted next_key = None
                            then AList.update next_key [] deleted else deleted)
             in case map_of created next_key of
                  None \<Rightarrow> Inl KeyError
                | Some next_bucket \<Rightarrow>
                    update_q_gram_counter
                      (AList.update next_key (next_bucket @ [q_gram]) created) q_grams key))"

text \<open>
  The state of \<^verbatim>\<open>ref_set_generator\<close>: the sets generated so far, the counter, and the
  position in the random stream.
\<close>

record gen_state =
  ref_sets :: "string fset list"
  q_gram_counter :: counter
  rng_pos :: nat

text \<open>
  Lines 100 to 104: a candidate sampled from the smallest bucket alone. Lines 88 to 95
  and 111 to 118: a candidate from the smallest bucket and the next one. A duplicate is
  rejected; an accepted set is appended, its q-grams move up one bucket, and line 120
  asserts its size.
\<close>

definition accept_one ::
  "gen_state \<Rightarrow> int \<Rightarrow> int \<Rightarrow> string list \<Rightarrow> nat \<Rightarrow> error + (bool \<times> gen_state)" where
  "accept_one st r_length counter_key random_q_grams pos =
     (let qs_r = fset_of_list random_q_grams in
      if qs_r \<notin> set (ref_sets st) then
        (case update_q_gram_counter (q_gram_counter st) random_q_grams counter_key of
           Inl e \<Rightarrow> Inl e
         | Inr updated \<Rightarrow>
             if int (fcard qs_r) \<noteq> r_length then Inl AssertionError
             else Inr (True, \<lparr>ref_sets = ref_sets st @ [qs_r], q_gram_counter = updated,
                              rng_pos = pos\<rparr>))
      else Inr (False, st\<lparr>rng_pos := pos\<rparr>))"

definition accept_both ::
  "gen_state \<Rightarrow> int \<Rightarrow> int \<Rightarrow> string list \<Rightarrow> string list \<Rightarrow> nat \<Rightarrow>
   error + (bool \<times> gen_state)" where
  "accept_both st r_length counter_key q_grams_from_smallest_key q_grams_from_next_key pos =
     (let qs_r = fset_of_list (q_grams_from_smallest_key @ q_grams_from_next_key) in
      if qs_r \<notin> set (ref_sets st) then
        (case update_q_gram_counter (q_gram_counter st) q_grams_from_smallest_key counter_key of
           Inl e \<Rightarrow> Inl e
         | Inr updated \<Rightarrow>
             (case update_q_gram_counter updated q_grams_from_next_key (counter_key + 1) of
                Inl e \<Rightarrow> Inl e
              | Inr updated' \<Rightarrow>
                  if int (fcard qs_r) \<noteq> r_length then Inl AssertionError
                  else Inr (True, \<lparr>ref_sets = ref_sets st @ [qs_r], q_gram_counter = updated',
                                   rng_pos = pos\<rparr>)))
      else Inr (False, st\<lparr>rng_pos := pos\<rparr>))"

text \<open>
  One pass of the loop of line 79, for the value \<^verbatim>\<open>try_counter\<close> has after line 80. The
  result says whether \<^verbatim>\<open>did_generate_successfully\<close> is set. The \<^verbatim>\<open>else\<close> of line 96
  belongs to the test of line 82: when that test holds and the test of line 84 fails,
  the pass does nothing but draw one q-gram.
\<close>

definition attempt ::
  "(nat \<Rightarrow> nat) \<Rightarrow> int \<Rightarrow> int \<Rightarrow> string list \<Rightarrow> int \<Rightarrow> gen_state \<Rightarrow>
   error + (bool \<times> gen_state)" where
  "attempt rng r_length counter_key q_grams_in_smallest_key try_counter st =
     (if r_length \<le> int (length q_grams_in_smallest_key) then
        (if int (length q_grams_in_smallest_key) = r_length \<and> 1 < try_counter then
           (case random_sample rng (rng_pos st) q_grams_in_smallest_key 1 of
              Inl e \<Rightarrow> Inl e
            | Inr (q_gram_from_smallest_key, pos1) \<Rightarrow>
                if r_length - 1 \<noteq> 0 then
                  (case map_of (q_gram_counter st) (counter_key + 1) of
                     None \<Rightarrow> Inl KeyError
                   | Some q_grams_in_next_key \<Rightarrow>
                       if r_length - 1 \<le> int (length q_grams_in_next_key) then
                         (case random_sample rng pos1 q_grams_in_next_key (r_length - 1) of
                            Inl e \<Rightarrow> Inl e
                          | Inr (q_grams_from_next_key, pos2) \<Rightarrow>
                              accept_both st r_length counter_key q_gram_from_smallest_key
                                q_grams_from_next_key pos2)
                       else Inr (False, st\<lparr>rng_pos := pos1\<rparr>))
                else Inr (False, st\<lparr>rng_pos := pos1\<rparr>))
         else
           (case random_sample rng (rng_pos st) q_grams_in_smallest_key r_length of
              Inl e \<Rightarrow> Inl e
            | Inr (random_q_grams, pos1) \<Rightarrow>
                accept_one st r_length counter_key random_q_grams pos1))
      else
        (let slack_elements = r_length - int (length q_grams_in_smallest_key) in
         case map_of (q_gram_counter st) (counter_key + 1) of
           None \<Rightarrow> Inl KeyError
         | Some q_grams_in_next_key \<Rightarrow>
             if slack_elements \<le> int (length q_grams_in_next_key) then
               (case random_sample rng (rng_pos st) q_grams_in_next_key slack_elements of
                  Inl e \<Rightarrow> Inl e
                | Inr (q_grams_from_next_key, pos1) \<Rightarrow>
                    accept_both st r_length counter_key q_grams_in_smallest_key
                      q_grams_from_next_key pos1)
             else Inr (False, st)))"

text \<open>
  The loop of line 79 has no bound: it takes fuel, and \<open>None\<close> says the fuel did not
  suffice. \<open>try_counter\<close> is the value before line 80.
\<close>

fun generate_one ::
  "nat \<Rightarrow> (nat \<Rightarrow> nat) \<Rightarrow> int \<Rightarrow> int \<Rightarrow> string list \<Rightarrow> int \<Rightarrow> gen_state \<Rightarrow>
   (error + gen_state) option" where
  "generate_one 0 rng r_length counter_key q_grams_in_smallest_key try_counter st = None"
| "generate_one (Suc fuel) rng r_length counter_key q_grams_in_smallest_key try_counter st =
     (case attempt rng r_length counter_key q_grams_in_smallest_key (try_counter + 1) st of
        Inl e \<Rightarrow> Some (Inl e)
      | Inr (True, st') \<Rightarrow> Some (Inr st')
      | Inr (False, st') \<Rightarrow>
          generate_one fuel rng r_length counter_key q_grams_in_smallest_key (try_counter + 1) st')"

text \<open>The loop of line 73; a pass hands the fuel it has left to the loop of line 79.\<close>

fun generate_loop ::
  "nat \<Rightarrow> (nat \<Rightarrow> nat) \<Rightarrow> int \<Rightarrow> int \<Rightarrow> gen_state \<Rightarrow> (error + gen_state) option" where
  "generate_loop 0 rng r_length k st = None"
| "generate_loop (Suc fuel) rng r_length k st =
     (if check_q_gram_availability (q_gram_counter st) k then Some (Inr st)
      else if q_gram_counter st = [] then Some (Inl ValueError)
      else
        (let counter_key = min_list (map fst (q_gram_counter st)) in
         case map_of (q_gram_counter st) counter_key of
           None \<Rightarrow> Some (Inl KeyError)
         | Some q_grams_in_smallest_key \<Rightarrow>
             (case generate_one fuel rng r_length counter_key q_grams_in_smallest_key 0 st of
                None \<Rightarrow> None
              | Some (Inl e) \<Rightarrow> Some (Inl e)
              | Some (Inr st') \<Rightarrow> generate_loop fuel rng r_length k st')))"

text \<open>
  \<^verbatim>\<open>ref_set_generator\<close>: bucket 0 holds the alphabet \<open>q_c\<close>, the buckets 1 to \<open>k\<close> are
  empty. The stream \<open>rng\<close> stands for the generator seeded with \<^verbatim>\<open>random_seed\<close>.
\<close>

definition initial_counter :: "string list \<Rightarrow> int \<Rightarrow> counter" where
  "initial_counter q_c k = map (\<lambda>i. (i, if i = 0 then q_c else [])) [0..k]"

definition ref_set_generator ::
  "nat \<Rightarrow> (nat \<Rightarrow> nat) \<Rightarrow> int \<Rightarrow> string list \<Rightarrow> int \<Rightarrow> (error + string fset list) option" where
  "ref_set_generator fuel rng r_length q_c k =
     (case generate_loop fuel rng r_length k
             \<lparr>ref_sets = [], q_gram_counter = initial_counter q_c k, rng_pos = 0\<rparr> of
        None \<Rightarrow> None
      | Some (Inl e) \<Rightarrow> Some (Inl e)
      | Some (Inr st) \<Rightarrow> Some (Inr (ref_sets st)))"

subsection \<open>The driver of data\_encoder.py\<close>

text \<open>
  Lines 284 to 287 of the driver: both data sets get their intermediate signatures, and
  \<^verbatim>\<open>num_1_bits\<close> is the smaller of the two returned minima.
\<close>

definition main_num_1_bits ::
  "rounding \<Rightarrow> unit record_store \<Rightarrow> unit record_store \<Rightarrow> indexed_ref_sets \<Rightarrow> int \<Rightarrow>
   error + (nat \<times> (nat \<times> rat) list record_store \<times> (nat \<times> rat) list record_store)" where
  "main_num_1_bits r data_dic1 data_dic2 reference_q_gram_sets initial_ls =
     (case gen_init_int_signature r data_dic1 reference_q_gram_sets initial_ls of
        Inl e \<Rightarrow> Inl e
      | Inr (input1_smallest_k, record_store1) \<Rightarrow>
          (case gen_init_int_signature r data_dic2 reference_q_gram_sets initial_ls of
             Inl e \<Rightarrow> Inl e
           | Inr (input2_smallest_k, record_store2) \<Rightarrow>
               Inr (min input1_smallest_k input2_smallest_k, record_store1, record_store2)))"

text \<open>
  \<^verbatim>\<open>a, b = d\<close> for a dictionary \<open>d\<close> iterates over the keys of \<open>d\<close>: it binds the two keys
  when there are exactly two, and raises a \<^verbatim>\<open>ValueError\<close> otherwise.
\<close>

definition unpack2 :: "'a list \<Rightarrow> error + ('a \<times> 'a)" where
  "unpack2 keys = (case keys of [a, b] \<Rightarrow> Inr (a, b) | _ \<Rightarrow> Inl ValueError)"

text \<open>
  \<^verbatim>\<open>calculate_average_len\<close>: the length of the shortest q-gram set. The average it also
  returns is only printed.
\<close>

definition calculate_average_len :: "string fset list \<Rightarrow> error + nat" where
  "calculate_average_len record_q_gram_sets =
     (if record_q_gram_sets = [] then Inl ValueError
      else Inr (min_list (map fcard record_q_gram_sets)))"

text \<open>Lines 215 to 218 of ref\_set\_processor.py: the two assertions, then the set-only view.\<close>

fun set_only_views :: "weighed_random_sets \<Rightarrow> error + indexed_ref_sets" where
  "set_only_views [] = Inr []"
| "set_only_views ((key, item) # rest) =
     (if \<not> fBall (random_set_only item) (\<lambda>q_gram. length q_gram = 2) then Inl AssertionError
      else if fcard (random_set_only item) \<noteq> length (random_q_gram_set_with_freq item)
      then Inl AssertionError
      else
        (case set_only_views rest of
           Inl e \<Rightarrow> Inl e
         | Inr views \<Rightarrow> Inr ((key, random_set_only item) # views)))"

text \<open>
  \<^verbatim>\<open>RandomQgramSetGenerator.generate_random_q_gram_sets\<close>, on the dictionaries the
  constructor has read. With swapping, line 190 unpacks the dictionary that
  \<^verbatim>\<open>frequency_based_rank_swapping\<close> returns; if that succeeds,
  \<^verbatim>\<open>processed_indexed_r\<close> is an index, and \<^verbatim>\<open>processed_indexed_r.items()\<close> of line 197
  raises an \<^verbatim>\<open>AttributeError\<close>.
\<close>

definition generate_random_q_gram_sets ::
  "nat \<Rightarrow> rounding \<Rightarrow> (nat \<times> string list) list \<Rightarrow> (string \<rightharpoonup> int) \<Rightarrow> bool \<Rightarrow>
   (error + indexed_ref_sets) option" where
  "generate_random_q_gram_sets fuel r init_random_sets frequent_q_grams do_swapping =
     (case weigh_random_sets r init_random_sets frequent_q_grams of
        Inl e \<Rightarrow> Some (Inl e)
      | Inr weighed_random_sets \<Rightarrow>
          if length init_random_sets \<noteq> length weighed_random_sets then Some (Inl AssertionError)
          else
            (case py_min (weighted_score \<circ> snd) weighed_random_sets of
               Inl e \<Rightarrow> Some (Inl e)
             | Inr min_item \<Rightarrow>
                 (case py_max (weighted_score \<circ> snd) weighed_random_sets of
                    Inl e \<Rightarrow> Some (Inl e)
                  | Inr max_item \<Rightarrow>
                      if do_swapping then
                        (case frequency_based_rank_swapping fuel r weighed_random_sets of
                           None \<Rightarrow> None
                         | Some (Inl e) \<Rightarrow> Some (Inl e)
                         | Some (Inr returned) \<Rightarrow>
                             (case unpack2 (map fst returned) of
                                Inl e \<Rightarrow> Some (Inl e)
                              | Inr (processed_indexed_r, successful_modifications) \<Rightarrow>
                                  Some (Inl AttributeError)))
                      else Some (set_only_views weighed_random_sets))))"

text \<open>
  The driver. Line 24 imports a module \<^verbatim>\<open>random_qgram_generator\<close>, and line 275 takes
  the class \<^verbatim>\<open>RandomQgramSetGenerator\<close> from it. The repository has no module of that
  name: the class is defined in ref\_set\_processor.py, which the driver does not import.
  The module is therefore a parameter of the model: \<open>None\<close> when the import finds no
  module, as in the repository as it is delivered, where the import raises a
  \<^verbatim>\<open>ModuleNotFoundError\<close> before anything is read; and \<open>Some generate\<close> for a module
  whose generator, from the rows of the reference-set file, the frequency table and the
  swapping flag, returns the dictionary of reference sets, raises, or does not return.

  The other inputs are what \<^verbatim>\<open>generate_database_q_gram_sets\<close> reads from the two files
  and what the constructor of the generator reads from the reference-set file and the
  frequency file. A run that ends normally returns the four names bound by lines 291
  and 294.
\<close>

type_synonym generator_module =
  "(nat \<times> string list) list \<Rightarrow> (string \<rightharpoonup> int) \<Rightarrow> bool \<Rightarrow> (error + indexed_ref_sets) option"

definition main ::
  "rounding \<Rightarrow> generator_module option \<Rightarrow> unit record_store \<Rightarrow> string list \<Rightarrow>
   unit record_store \<Rightarrow> string list \<Rightarrow> int \<Rightarrow> (nat \<times> string list) list \<Rightarrow>
   (string \<rightharpoonup> int) \<Rightarrow> bool \<Rightarrow>
   (error + ((string \<times> string) \<times> (string \<times> string))) option" where
  "main r random_qgram_generator data_dic1 headers1 data_dic2 headers2 k init_random_sets
     frequent_q_grams must_swap =
     (case random_qgram_generator of
        None \<Rightarrow> Some (Inl ModuleNotFoundError)
      | Some generate_random_q_gram_sets_of_module \<Rightarrow>
     (if headers1 \<noteq> headers2 then Some (Inl AssertionError)
      else
        (case calculate_average_len
                (map (record_q_gram \<circ> snd) data_dic1 @ map (record_q_gram \<circ> snd) data_dic2) of
           Inl e \<Rightarrow> Some (Inl e)
         | Inr min_q_gram_length \<Rightarrow>
             (case generate_random_q_gram_sets_of_module init_random_sets frequent_q_grams
                     must_swap of
                None \<Rightarrow> None
              | Some (Inl e) \<Rightarrow> Some (Inl e)
              | Some (Inr reference_q_gram_sets) \<Rightarrow>
                  (let initial_ls = (k + 1) * int min_q_gram_length in
                   case main_num_1_bits r data_dic1 data_dic2 reference_q_gram_sets initial_ls of
                     Inl e \<Rightarrow> Some (Inl e)
                   | Inr (num_1_bits, record_store1, record_store2) \<Rightarrow>
                       (case extract_signatures reference_q_gram_sets record_store1 num_1_bits of
                          Inl e \<Rightarrow> Some (Inl e)
                        | Inr encoded1 \<Rightarrow>
                            (case unpack2 (map fst encoded1) of
                               Inl e \<Rightarrow> Some (Inl e)
                             | Inr (processed_records_1, zero_f_qs_r_1) \<Rightarrow>
                                 (case extract_signatures reference_q_gram_sets record_store2
                                         num_1_bits of
                                    Inl e \<Rightarrow> Some (Inl e)
                                  | Inr encoded2 \<Rightarrow>
                                      (case unpack2 (map fst encoded2) of
                                         Inl e \<Rightarrow> Some (Inl e)
                                       | Inr (processed_records_2, zero_f_qs_r_2) \<Rightarrow>
                                           Some (Inr ((processed_records_1, zero_f_qs_r_1),
                                                      (processed_records_2, zero_f_qs_r_2))))))))))))"

subsection \<open>Notions the theorems speak about\<close>

text \<open>
  The final signature \<open>rec'\<close> of a record against its intermediate signature: the q-gram
  set is kept, the bit array has length \<open>m\<close> and \<open>n\<close> bits set, at the reference-set
  indices of the first \<open>n\<close> entries of the ranking.
\<close>

definition bits_of_ranking :: "nat \<Rightarrow> nat \<Rightarrow> (nat \<times> rat) list rec_obj \<Rightarrow> bool list rec_obj \<Rightarrow> bool" where
  "bits_of_ranking m n rec_obj rec' =
     (record_q_gram rec' = record_q_gram rec_obj \<and>
      length (signature rec') = m \<and>
      length (filter (\<lambda>b. b) (signature rec')) = n \<and>
      (\<forall>p<m. signature rec' ! p = (p \<in> set (map fst (take n (signature rec_obj))))))"

text \<open>The length of a record's intermediate signature, and its number of reference sets
  of nonzero similarity.\<close>

definition sig_length :: "string \<times> 'a list rec_obj \<Rightarrow> nat" where
  "sig_length = (\<lambda>(rec_id, rec). length (signature rec))"

definition non_zero_count :: "indexed_ref_sets \<Rightarrow> string \<times> unit rec_obj \<Rightarrow> nat" where
  "non_zero_count indexed_r = (\<lambda>(rec_id, rec_obj). non_zero_count_per_record (record_q_gram rec_obj) indexed_r)"

text \<open>
  The frequency \<^verbatim>\<open>weigh_random_sets\<close> pairs with a q-gram, and what it establishes for a
  weighed reference set of \<open>n\<close> members: the pairs are pairwise distinct, each q-gram
  carries its frequency, the set-only view holds the same q-grams, and the weighted
  score is the rounded mean of the frequencies.
\<close>

definition freq_of :: "(string \<rightharpoonup> int) \<Rightarrow> string \<Rightarrow> int" where
  "freq_of q_gram_freq q_gram = (case q_gram_freq q_gram of Some f \<Rightarrow> f | None \<Rightarrow> 1)"

definition wf_set :: "rounding \<Rightarrow> (string \<Rightarrow> int) \<Rightarrow> nat \<Rightarrow> weighed_set \<Rightarrow> bool" where
  "wf_set r freq n item =
     (distinct (random_q_gram_set_with_freq item) \<and>
      length (random_q_gram_set_with_freq item) = n \<and>
      (\<forall>(q_gram, f)\<in>set (random_q_gram_set_with_freq item). f = freq q_gram) \<and>
      random_set_only item = fset_of_list (map fst (random_q_gram_set_with_freq item)) \<and>
      weighted_score item =
        fl r (of_int (sum_list (map snd (random_q_gram_set_with_freq item))) / of_nat n))"

text \<open>A pool whose reference set of index \<open>i\<close> has \<open>len_of i\<close> members.\<close>

definition pool_inv ::
  "rounding \<Rightarrow> (string \<Rightarrow> int) \<Rightarrow> (nat \<Rightarrow> nat) \<Rightarrow> weighed_random_sets \<Rightarrow> bool" where
  "pool_inv r freq len_of weighed_random_sets =
     (distinct (map fst weighed_random_sets) \<and>
      (\<forall>(index, item)\<in>set weighed_random_sets. wf_set r freq (len_of index) item))"

text \<open>The pool-wide weight spread: greatest minus least weighted score.\<close>

definition weight_spread :: "weighed_random_sets \<Rightarrow> rat" where
  "weight_spread weighed_random_sets =
     Max (set (map (weighted_score \<circ> snd) weighed_random_sets)) -
     Min (set (map (weighted_score \<circ> snd) weighed_random_sets))"

text \<open>
  The number of generated sets a q-gram belongs to, and the invariant of the generator:
  the buckets have distinct keys and no repeated q-gram, a q-gram of the bucket with key
  \<open>c\<close> is of the alphabet \<open>A\<close> and has the count \<open>f\<close> says, which is \<open>c\<close>, and every q-gram of
  the alphabet is in some bucket.
\<close>

definition placed :: "string fset list \<Rightarrow> string \<Rightarrow> int" where
  "placed sets q_gram = int (length (filter (\<lambda>s. q_gram |\<in>| s) sets))"

definition buckets_inv :: "string set \<Rightarrow> (string \<Rightarrow> int) \<Rightarrow> counter \<Rightarrow> bool" where
  "buckets_inv A f cnt =
     (distinct (map fst cnt) \<and>
      (\<forall>c b. map_of cnt c = Some b \<longrightarrow> distinct b \<and> (\<forall>g\<in>set b. g \<in> A \<and> f g = c)) \<and>
      (\<forall>g\<in>A. \<exists>c b. map_of cnt c = Some b \<and> g \<in> set b))"

definition gen_inv :: "string set \<Rightarrow> int \<Rightarrow> gen_state \<Rightarrow> bool" where
  "gen_inv A r_length st =
     (buckets_inv A (placed (ref_sets st)) (q_gram_counter st) \<and>
      distinct (ref_sets st) \<and>
      (\<forall>s\<in>set (ref_sets st). int (fcard s) = r_length))"

subsection \<open>Concrete inputs\<close>

text \<open>
  A pool of five reference sets: \<open>ab\<close> lies in three of them and \<open>cd\<close> in two, so a
  record with q-grams \<open>ab\<close> and \<open>cd\<close> has five reference sets of nonzero similarity, a
  record with \<open>ab\<close> alone has three, and a record with \<open>qq\<close> alone has none.
\<close>

definition ex_pool :: indexed_ref_sets where
  "ex_pool = [(0, {|''ab'', ''x1''|}), (1, {|''ab'', ''x2''|}), (2, {|''ab'', ''x3''|}),
              (3, {|''cd'', ''x4''|}), (4, {|''cd'', ''x5''|})]"


definition ex_data2 :: "unit record_store" where
  "ex_data2 = [(''b1'', \<lparr>record_q_gram = {|''ab''|}, signature = ()\<rparr>),
               (''b2'', \<lparr>record_q_gram = {|''ab'', ''cd''|}, signature = ()\<rparr>)]"

definition ex_data3 :: "unit record_store" where
  "ex_data3 = [(''c1'', \<lparr>record_q_gram = {|''qq''|}, signature = ()\<rparr>)]"

text \<open>The intermediate signatures of \<open>ex_data2\<close> for an initial signature length of 4.\<close>

definition ex_store2 :: "(nat \<times> rat) list record_store" where
  "ex_store2 =
     [(''b1'', \<lparr>record_q_gram = {|''ab''|},
               signature = [(0, 1 / 2), (1, 1 / 2), (2, 1 / 2)]\<rparr>),
      (''b2'', \<lparr>record_q_gram = {|''ab'', ''cd''|},
               signature = [(0, 1 / 3), (1, 1 / 3), (2, 1 / 3), (3, 1 / 3)]\<rparr>)]"

text \<open>Two reference sets of equal weighted score.\<close>

definition tie_pool :: weighed_random_sets where
  "tie_pool =
     [(0, \<lparr>random_q_gram_set_with_freq = [(''aa'', 1), (''bb'', 1)],
           random_set_only = {|''aa'', ''bb''|}, weighted_score = 1\<rparr>),
      (1, \<lparr>random_q_gram_set_with_freq = [(''cc'', 1), (''dd'', 1)],
           random_set_only = {|''cc'', ''dd''|}, weighted_score = 1\<rparr>)]"

text \<open>
  Three pairwise distinct rows of two q-grams each, and a frequency table for them.
\<close>

definition bug_rows :: "(nat \<times> string list) list" where
  "bug_rows = [(0, [''xa'', ''ya'']), (1, [''za'', ''wa'']), (2, [''za'', ''ya''])]"

definition bug_freq :: "string \<rightharpoonup> int" where
  "bug_freq = map_of [(''xa'', 1), (''ya'', 6), (''za'', 5), (''wa'', 7)]"

text \<open>The rows weighed, and the pool after the one swap the optimizer accepts.\<close>

definition bug_pool :: weighed_random_sets where
  "bug_pool =
     [(0, \<lparr>random_q_gram_set_with_freq = [(''xa'', 1), (''ya'', 6)],
           random_set_only = {|''xa'', ''ya''|}, weighted_score = 7 / 2\<rparr>),
      (1, \<lparr>random_q_gram_set_with_freq = [(''za'', 5), (''wa'', 7)],
           random_set_only = {|''za'', ''wa''|}, weighted_score = 6\<rparr>),
      (2, \<lparr>random_q_gram_set_with_freq = [(''za'', 5), (''ya'', 6)],
           random_set_only = {|''za'', ''ya''|}, weighted_score = 11 / 2\<rparr>)]"

definition bug_swapped :: weighed_random_sets where
  "bug_swapped =
     [(0, \<lparr>random_q_gram_set_with_freq = [(''za'', 5), (''ya'', 6)],
           random_set_only = {|''za'', ''ya''|}, weighted_score = 11 / 2\<rparr>),
      (1, \<lparr>random_q_gram_set_with_freq = [(''xa'', 1), (''wa'', 7)],
           random_set_only = {|''xa'', ''wa''|}, weighted_score = 4\<rparr>),
      (2, \<lparr>random_q_gram_set_with_freq = [(''za'', 5), (''ya'', 6)],
           random_set_only = {|''za'', ''ya''|}, weighted_score = 11 / 2\<rparr>)]"

text \<open>
  Two data sets of two records each, every record with one q-gram (an attribute value
  of two characters), for the reference sets of \<open>tie_pool\<close>.
\<close>

definition two_records1 :: "unit record_store" where
  "two_records1 = [(''r1'', \<lparr>record_q_gram = {|''aa''|}, signature = ()\<rparr>),
                   (''r2'', \<lparr>record_q_gram = {|''cc''|}, signature = ()\<rparr>)]"

definition two_records2 :: "unit record_store" where
  "two_records2 = [(''s1'', \<lparr>record_q_gram = {|''bb''|}, signature = ()\<rparr>),
                   (''s2'', \<lparr>record_q_gram = {|''dd''|}, signature = ()\<rparr>)]"

text \<open>A random stream, and the pool the generator returns for it on four q-grams.\<close>

definition counting_stream :: "nat \<Rightarrow> nat" where
  "counting_stream n = n"

definition four_q_grams :: "string list" where
  "four_q_grams = [''aa'', ''ab'', ''ba'', ''bb'']"

text \<open>
  Six q-grams and a random stream for which the generator, with sets of two and \<open>k = 2\<close>,
  comes to the state \<open>variety_state\<close>: the smallest bucket, of key 1, holds exactly the
  two q-grams of the first set, and the attempt to take both has just been rejected.
\<close>

definition six_q_grams :: "string list" where
  "six_q_grams = [''aa'', ''bb'', ''cc'', ''dd'', ''ee'', ''ff'']"

definition variety_stream :: "nat \<Rightarrow> nat" where
  "variety_stream n = (if n = 6 \<or> n = 8 \<or> n = 9 then 2 else if n = 7 then 3 else 0)"

definition variety_state :: gen_state where
  "variety_state =
     \<lparr>ref_sets = [{|''aa'', ''bb''|}, {|''cc'', ''dd''|}, {|''ee'', ''ff''|},
                  {|''cc'', ''ee''|}, {|''dd'', ''ff''|}],
      q_gram_counter = [(1, [''aa'', ''bb'']), (2, [''cc'', ''ee'', ''dd'', ''ff''])],
      rng_pos = 12\<rparr>"

section \<open>Properties\<close>

subsection \<open>Rounding\<close>

lemma fl_mono: "x \<le> y \<Longrightarrow> fl r x \<le> fl r y"
  by transfer (auto simp: mono_def)

lemma fl_minus: "fl r (- x) = - fl r x"
  by transfer auto

lemma fl_one: "fl r 1 = 1"
  by transfer auto

lemma fl_zero: "fl r 0 = 0"
  using fl_minus[of r 0] by simp

lemma fl_exact: "fl exact x = x"
  by transfer simp

lemma fl_unit_interval: "0 \<le> x \<Longrightarrow> x \<le> 1 \<Longrightarrow> 0 \<le> fl r x \<and> fl r x \<le> 1"
  using fl_mono[of 0 x r] fl_mono[of x 1 r] by (simp add: fl_zero fl_one)

subsection \<open>The signature encoder\<close>

lemma q_gram_jacc_sim_defined:
  assumes "a |\<inter>| b \<noteq> {||}"
  shows "\<exists>s. q_gram_jacc_sim r a b = Inr s"
proof -
  have ne: "a |\<union>| b \<noteq> {||}" using assms by auto
  then have pos: "fcard (a |\<union>| b) \<noteq> 0" by (metis fcard_0_eq)
  have le: "fcard (a |\<inter>| b) \<le> fcard (a |\<union>| b)"
    by (rule fcard_mono) auto
  let ?q = "(of_nat (fcard (a |\<inter>| b)) :: rat) / of_nat (fcard (a |\<union>| b))"
  have "0 \<le> ?q" by simp
  moreover have "?q \<le> 1"
  proof -
    have posr: "(0::rat) < of_nat (fcard (a |\<union>| b))" using pos by linarith
    have "(of_nat (fcard (a |\<inter>| b)) :: rat) \<le> of_nat (fcard (a |\<union>| b))"
      using le by (simp only: of_nat_le_iff)
    then show ?thesis by (simp only: pos_divide_le_eq[OF posr] mult_1)
  qed
  ultimately have "0 \<le> fl r ?q \<and> fl r ?q \<le> 1" by (rule fl_unit_interval)
  then show ?thesis
    unfolding q_gram_jacc_sim_def Let_def using pos by (simp only: if_False if_True simp_thms) blast
qed

lemma record_sim_store_defined:
  "\<exists>sims. record_sim_store r qs indexed_r = Inr sims \<and>
     map fst sims = map fst (filter (\<lambda>(qs_r_index, qs_r). qs_r |\<inter>| qs \<noteq> {||}) indexed_r)"
proof (induction indexed_r)
  case Nil
  then show ?case by simp
next
  case (Cons p rest)
  obtain i qs_r where p: "p = (i, qs_r)" by (cases p)
  show ?case
  proof (cases "qs_r |\<inter>| qs \<noteq> {||}")
    case True
    then have "qs |\<inter>| qs_r \<noteq> {||}" by (simp add: inf_commute)
    then obtain s where "q_gram_jacc_sim r qs qs_r = Inr s"
      using q_gram_jacc_sim_defined by blast
    with Cons True p show ?thesis by auto
  next
    case False
    with Cons p show ?thesis by auto
  qed
qed

lemma length_py_slice_to_min:
  "length (py_slice_to xs (min n (int (length xs)))) =
     (if n < 0 then nat (int (length xs) + n) else min (nat n) (length xs))"
proof (cases "n < 0")
  case True
  then have "min n (int (length xs)) = n" by simp
  moreover have "nat (int (length xs) + n) \<le> length xs" using True by linarith
  ultimately show ?thesis using True by (simp add: py_slice_to_def min_absorb2)
next
  case False
  then have "nat (min n (int (length xs))) = min (nat n) (length xs)" by linarith
  then show ?thesis using False by (simp add: py_slice_to_def)
qed

lemma set_py_slice_to: "set (py_slice_to xs n) \<subseteq> set xs"
  by (auto simp: py_slice_to_def dest: in_set_takeD)

lemma distinct_py_slice_to: "distinct (map f xs) \<Longrightarrow> distinct (map f (py_slice_to xs n))"
  by (simp add: py_slice_to_def take_map[symmetric])

lemma sorted_sim_store_descending: "sorted_wrt (\<lambda>a b. snd a \<ge> snd b) (sorted_sim_store sims)"
proof -
  have "sorted (map (\<lambda>item. - snd item) (sorted_sim_store sims))"
    by (simp add: sorted_sim_store_def)
  then show ?thesis
    by (simp add: sorted_wrt_map sorted_wrt_iff_nth_less)
qed

lemma distinct_map_insort_key:
  "distinct (map g (insort_key f x xs)) = (g x \<notin> g ` set xs \<and> distinct (map g xs))"
  by (induction xs) (auto simp: set_insort_key)

lemma distinct_map_sort_key: "distinct (map g (sort_key f xs)) = distinct (map g xs)"
  by (induction xs) (simp_all add: distinct_map_insort_key)

lemma sorted_wrt_py_slice_to: "sorted_wrt P xs \<Longrightarrow> sorted_wrt P (py_slice_to xs n)"
  by (simp add: py_slice_to_def)

lemma init_signature_defined:
  "\<exists>sg. init_signature r qs indexed_r init_sign_length = Inr sg \<and>
     length sg = (if init_sign_length < 0
                  then nat (int (non_zero_count_per_record qs indexed_r) + init_sign_length)
                  else min (nat init_sign_length) (non_zero_count_per_record qs indexed_r)) \<and>
     set (map fst sg) \<subseteq> set (map fst indexed_r) \<and>
     (distinct (map fst indexed_r) \<longrightarrow> distinct (map fst sg)) \<and>
     sorted_wrt (\<lambda>a b. snd a \<ge> snd b) sg"
proof -
  obtain sims where sims: "record_sim_store r qs indexed_r = Inr sims"
    and keys: "map fst sims =
      map fst (filter (\<lambda>(qs_r_index, qs_r). qs_r |\<inter>| qs \<noteq> {||}) indexed_r)"
    using record_sim_store_defined by blast
  let ?sg = "py_slice_to (sorted_sim_store sims) (min init_sign_length (int (length sims)))"
  have len: "length sims = non_zero_count_per_record qs indexed_r"
    using keys by (metis length_map non_zero_count_per_record_def)
  have lens: "length (sorted_sim_store sims) = length sims"
    by (simp add: sorted_sim_store_def)
  have sets: "set (sorted_sim_store sims) = set sims"
    by (simp add: sorted_sim_store_def)
  have 1: "init_signature r qs indexed_r init_sign_length = Inr ?sg"
    by (simp add: init_signature_def sims)
  have 2: "length ?sg = (if init_sign_length < 0
                  then nat (int (non_zero_count_per_record qs indexed_r) + init_sign_length)
                  else min (nat init_sign_length) (non_zero_count_per_record qs indexed_r))"
    using length_py_slice_to_min[of "sorted_sim_store sims" init_sign_length]
    by (simp only: lens len)
  have "set (map fst sims) \<subseteq> set (map fst indexed_r)"
    unfolding keys by auto
  moreover have "set ?sg \<subseteq> set sims"
    using set_py_slice_to[of "sorted_sim_store sims"] by (simp only: sets)
  then have "fst ` set ?sg \<subseteq> fst ` set sims" by (rule image_mono)
  ultimately have 3: "set (map fst ?sg) \<subseteq> set (map fst indexed_r)"
    by (simp only: set_map)
  have 4: "distinct (map fst ?sg)" if "distinct (map fst indexed_r)"
  proof -
    have "distinct (map fst sims)"
      unfolding keys using that by (simp add: distinct_map_filter)
    then have "distinct (map fst (sorted_sim_store sims))"
      by (simp only: sorted_sim_store_def distinct_map_sort_key)
    then show ?thesis by (rule distinct_py_slice_to)
  qed
  have 5: "sorted_wrt (\<lambda>a b. snd a \<ge> snd b) ?sg"
    by (rule sorted_wrt_py_slice_to) (rule sorted_sim_store_descending)
  show ?thesis using 1 2 3 4 5 by blast
qed

lemma init_signatures_defined:
  "\<exists>store. init_signatures r record_store indexed_r init_sign_length = Inr store \<and>
     list_all2 (\<lambda>(rec_id, rec_obj) (rec_id', rec').
        rec_id' = rec_id \<and> record_q_gram rec' = record_q_gram rec_obj \<and>
        init_signature r (record_q_gram rec_obj) indexed_r init_sign_length = Inr (signature rec'))
       record_store store"
proof (induction record_store)
  case Nil
  then show ?case by simp
next
  case (Cons p rest)
  obtain rec_id rec_obj where p: "p = (rec_id, rec_obj)" by (cases p)
  obtain sg where "init_signature r (record_q_gram rec_obj) indexed_r init_sign_length = Inr sg"
    using init_signature_defined by blast
  with Cons p show ?case by auto
qed

lemma set_positions_defined:
  "length encoded_ba = n \<Longrightarrow> \<forall>pos\<in>set positions. pos < n \<Longrightarrow>
   \<exists>ba. set_positions n encoded_ba positions = Inr ba \<and> length ba = n \<and>
        (\<forall>p<n. ba ! p = (encoded_ba ! p \<or> p \<in> set positions))"
proof (induction positions arbitrary: encoded_ba)
  case Nil
  then show ?case by simp
next
  case (Cons pos positions)
  have "length (encoded_ba[pos := True]) = n" using Cons.prems by simp
  moreover have "\<forall>q\<in>set positions. q < n" using Cons.prems by simp
  ultimately obtain ba where ba: "set_positions n (encoded_ba[pos := True]) positions = Inr ba"
    "length ba = n" "\<forall>p<n. ba ! p = ((encoded_ba[pos := True]) ! p \<or> p \<in> set positions)"
    using Cons.IH by blast
  have pos: "pos < n" using Cons.prems by simp
  have "ba ! p = (encoded_ba ! p \<or> p \<in> set (pos # positions))" if "p < n" for p
  proof -
    have "ba ! p = ((encoded_ba[pos := True]) ! p \<or> p \<in> set positions)"
      using ba(3) that by blast
    moreover have "(encoded_ba[pos := True]) ! p = (encoded_ba ! p \<or> p = pos)"
      using that Cons.prems(1) by (cases "p = pos") simp_all
    ultimately show ?thesis by auto
  qed
  then show ?case using ba(1,2) pos by simp
qed

lemma count_set_bits:
  assumes "length ba = n" "\<forall>p<n. ba ! p = (p \<in> set positions)"
    "\<forall>pos\<in>set positions. pos < n" "distinct positions"
  shows "length (filter (\<lambda>b. b) ba) = length positions"
proof -
  have "{i. i < length ba \<and> ba ! i} = set positions"
    using assms by auto
  then show ?thesis
    using assms(4) by (simp add: length_filter_conv_card distinct_card)
qed

lemma generate_bit_array_signature_defined:
  assumes "\<forall>pos\<in>set positions. pos < n" "distinct positions"
  shows "\<exists>ba. generate_bit_array_signature n positions = Inr ba \<and> length ba = n \<and>
           length (filter (\<lambda>b. b) ba) = length positions \<and>
           (\<forall>p<n. ba ! p = (p \<in> set positions))"
proof -
  obtain ba where ba: "set_positions n (replicate n False) positions = Inr ba" "length ba = n"
    "\<forall>p<n. ba ! p = ((replicate n False) ! p \<or> p \<in> set positions)"
    using set_positions_defined[of "replicate n False" n positions] assms(1) by auto
  then have bits: "\<forall>p<n. ba ! p = (p \<in> set positions)" by simp
  then have "length (filter (\<lambda>b. b) ba) = length positions"
    using count_set_bits ba(2) assms by blast
  then show ?thesis using ba bits by (simp add: generate_bit_array_signature_def)
qed

lemma extract_records_defined:
  assumes "\<forall>(rec_id, rec_obj)\<in>set store. n \<le> length (signature rec_obj) \<and>
             distinct (map fst (signature rec_obj)) \<and>
             (\<forall>i\<in>set (map fst (signature rec_obj)). i < m)"
  shows "\<exists>out. extract_records m store n = Inr out \<and>
           list_all2 (\<lambda>(rec_id, rec_obj) (rec_id', rec').
              rec_id' = rec_id \<and> bits_of_ranking m n rec_obj rec') store out"
  using assms
proof (induction store)
  case Nil
  then show ?case by simp
next
  case (Cons p rest)
  obtain rec_id rec_obj where p: "p = (rec_id, rec_obj)" by (cases p)
  let ?positions = "map fst (take n (signature rec_obj))"
  have len: "n \<le> length (signature rec_obj)" and d: "distinct (map fst (signature rec_obj))"
    and rng: "\<forall>i\<in>set (map fst (signature rec_obj)). i < m"
    using Cons.prems p by auto
  have "distinct ?positions" using d by (simp add: take_map[symmetric])
  moreover have "\<forall>pos\<in>set ?positions. pos < m"
    using rng by (auto dest: in_set_takeD)
  ultimately obtain ba where ba: "generate_bit_array_signature m ?positions = Inr ba"
    "length ba = m" "length (filter (\<lambda>b. b) ba) = length ?positions"
    "\<forall>p<m. ba ! p = (p \<in> set ?positions)"
    using generate_bit_array_signature_defined by blast
  have cnt: "length (filter (\<lambda>b. b) ba) = n" using ba(3) len by simp
  obtain out where out: "extract_records m rest n = Inr out"
    "list_all2 (\<lambda>(rec_id, rec_obj) (rec_id', rec').
        rec_id' = rec_id \<and> bits_of_ranking m n rec_obj rec') rest out"
    using Cons.IH Cons.prems by auto
  have "bits_of_ranking m n rec_obj \<lparr>record_q_gram = record_q_gram rec_obj, signature = ba\<rparr>"
    using ba(2,4) cnt by (simp add: bits_of_ranking_def)
  then show ?case using p len ba(1) out by (simp add: Let_def)
qed

lemma init_signatures_members:
  assumes "init_signatures r record_store indexed_r init_sign_length = Inr store"
    and "(rec_id, rec) \<in> set store"
  shows "\<exists>qs. init_signature r qs indexed_r init_sign_length = Inr (signature rec)"
proof -
  obtain store' where s: "init_signatures r record_store indexed_r init_sign_length = Inr store'"
    and l: "list_all2 (\<lambda>(rec_id, rec_obj) (rec_id', rec').
        rec_id' = rec_id \<and> record_q_gram rec' = record_q_gram rec_obj \<and>
        init_signature r (record_q_gram rec_obj) indexed_r init_sign_length = Inr (signature rec'))
       record_store store'"
    using init_signatures_defined by blast
  have "store' = store" using s assms(1) by simp
  then obtain j where j: "j < length store" "store ! j = (rec_id, rec)"
    using assms(2) by (auto simp: in_set_conv_nth)
  have "j < length record_store" using l j(1) \<open>store' = store\<close> by (simp add: list_all2_lengthD)
  obtain rid0 ro0 where r0: "record_store ! j = (rid0, ro0)" by (cases "record_store ! j")
  have "init_signature r (record_q_gram ro0) indexed_r init_sign_length = Inr (signature rec)"
    using list_all2_nthD2[OF l, of j] j r0 \<open>store' = store\<close> by simp
  then show ?thesis by blast
qed

lemma gen_init_int_signature_Inr:
  "gen_init_int_signature r record_store indexed_r init_sign_length = Inr (min_1_bits, store) \<Longrightarrow>
   init_signatures r record_store indexed_r init_sign_length = Inr store \<and> store \<noteq> [] \<and>
   min_1_bits = min_list (map (\<lambda>(rec_id, rec). length (signature rec)) store)"
  by (auto simp: gen_init_int_signature_def split: sum.splits if_splits)

text \<open>
  Claim C1. Let the pool be a dictionary with keys \<open>0, \<dots>, m - 1\<close> (as the reader of the
  reference-set file builds it) and let every intermediate signature produced by
  \<^verbatim>\<open>gen_init_int_signature\<close> have at least \<open>num_1_bits\<close> entries. Then
  \<^verbatim>\<open>extract_signatures\<close> raises nothing and keeps the records in order; every ranking is
  descending in similarity; and every final signature is a bit array of length \<open>m\<close> with
  exactly \<open>num_1_bits\<close> bits set, a bit being set if and only if its position is the index
  of one of the first \<open>num_1_bits\<close> reference sets of the record's ranking.
\<close>

theorem extract_signatures_top_bits:
  assumes keys: "distinct (map fst indexed_r)"
      "\<forall>i\<in>set (map fst indexed_r). i < length indexed_r"
    and gen: "gen_init_int_signature r record_store indexed_r init_sign_length =
                Inr (min_1_bits, store)"
    and pre: "\<forall>(rec_id, rec)\<in>set store. num_1_bits \<le> length (signature rec)"
  shows "\<exists>out. extract_signatures indexed_r store num_1_bits = Inr out \<and>
           length out = length store \<and>
           (\<forall>j<length store.
              fst (out ! j) = fst (store ! j) \<and>
              sorted_wrt (\<lambda>a b. snd a \<ge> snd b) (signature (snd (store ! j))) \<and>
              length (signature (snd (out ! j))) = length indexed_r \<and>
              length (filter (\<lambda>b. b) (signature (snd (out ! j)))) = num_1_bits \<and>
              (\<forall>p<length indexed_r.
                 signature (snd (out ! j)) ! p =
                   (p \<in> set (map fst (take num_1_bits (signature (snd (store ! j))))))))"
proof -
  let ?m = "length indexed_r"
  have init: "init_signatures r record_store indexed_r init_sign_length = Inr store"
    using gen_init_int_signature_Inr[OF gen] by simp
  have props: "distinct (map fst (signature rec)) \<and> (\<forall>i\<in>set (map fst (signature rec)). i < ?m)
      \<and> sorted_wrt (\<lambda>a b. snd a \<ge> snd b) (signature rec)"
    if mem: "(rec_id, rec) \<in> set store" for rec_id rec
  proof -
    obtain qs where qs: "init_signature r qs indexed_r init_sign_length = Inr (signature rec)"
      using init_signatures_members[OF init mem] by blast
    obtain sg where sg: "init_signature r qs indexed_r init_sign_length = Inr sg"
      "set (map fst sg) \<subseteq> set (map fst indexed_r)"
      "distinct (map fst indexed_r) \<longrightarrow> distinct (map fst sg)"
      "sorted_wrt (\<lambda>a b. snd a \<ge> snd b) sg"
      using init_signature_defined[of r qs indexed_r init_sign_length] by blast
    have "sg = signature rec" using qs sg(1) by simp
    then show ?thesis using sg(2,3,4) keys by blast
  qed
  have "\<forall>(rec_id, rec_obj)\<in>set store. num_1_bits \<le> length (signature rec_obj) \<and>
             distinct (map fst (signature rec_obj)) \<and>
             (\<forall>i\<in>set (map fst (signature rec_obj)). i < ?m)"
    using props pre by blast
  then obtain out where out: "extract_records ?m store num_1_bits = Inr out"
    "list_all2 (\<lambda>(rec_id, rec_obj) (rec_id', rec').
        rec_id' = rec_id \<and> bits_of_ranking ?m num_1_bits rec_obj rec') store out"
    using extract_records_defined by blast
  have len: "length out = length store" using out(2) by (simp add: list_all2_lengthD)
  have "fst (out ! j) = fst (store ! j) \<and>
        sorted_wrt (\<lambda>a b. snd a \<ge> snd b) (signature (snd (store ! j))) \<and>
        length (signature (snd (out ! j))) = ?m \<and>
        length (filter (\<lambda>b. b) (signature (snd (out ! j)))) = num_1_bits \<and>
        (\<forall>p<?m. signature (snd (out ! j)) ! p =
                   (p \<in> set (map fst (take num_1_bits (signature (snd (store ! j)))))))"
    if j: "j < length store" for j
  proof -
    obtain rid ro where s: "store ! j = (rid, ro)" by (cases "store ! j")
    obtain rid' ro' where o: "out ! j = (rid', ro')" by (cases "out ! j")
    have "rid' = rid \<and> bits_of_ranking ?m num_1_bits ro ro'"
      using list_all2_nthD[OF out(2) j] s o by simp
    moreover have "(rid, ro) \<in> set store" using j s by (metis nth_mem)
    then have "sorted_wrt (\<lambda>a b. snd a \<ge> snd b) (signature ro)" using props by blast
    ultimately show ?thesis using s o by (simp add: bits_of_ranking_def)
  qed
  then show ?thesis using out(1) len by (simp add: extract_signatures_def)
qed


lemma init_signatures_lengths:
  assumes "init_signatures r record_store indexed_r init_sign_length = Inr store"
  shows "map fst store = map fst record_store"
    and "0 \<le> init_sign_length \<Longrightarrow>
         map sig_length store =
           map (\<lambda>p. min (nat init_sign_length) (non_zero_count indexed_r p)) record_store"
    and "map sig_length store =
           map (\<lambda>p. if init_sign_length < 0
                     then nat (int (non_zero_count indexed_r p) + init_sign_length)
                     else min (nat init_sign_length) (non_zero_count indexed_r p)) record_store"
proof -
  obtain store' where s: "init_signatures r record_store indexed_r init_sign_length = Inr store'"
    and l: "list_all2 (\<lambda>(rec_id, rec_obj) (rec_id', rec').
        rec_id' = rec_id \<and> record_q_gram rec' = record_q_gram rec_obj \<and>
        init_signature r (record_q_gram rec_obj) indexed_r init_sign_length = Inr (signature rec'))
       record_store store'"
    using init_signatures_defined by blast
  have eq: "store' = store" using s assms by simp
  have len: "length store = length record_store" using l eq by (simp add: list_all2_lengthD)
  have at: "fst (store ! j) = fst (record_store ! j) \<and>
      sig_length (store ! j) = (if init_sign_length < 0
                     then nat (int (non_zero_count indexed_r (record_store ! j)) + init_sign_length)
                     else min (nat init_sign_length) (non_zero_count indexed_r (record_store ! j)))"
    if j: "j < length record_store" for j
  proof -
    obtain rid ro where a: "record_store ! j = (rid, ro)" by (cases "record_store ! j")
    obtain rid' ro' where b: "store ! j = (rid', ro')" by (cases "store ! j")
    have c: "rid' = rid \<and> init_signature r (record_q_gram ro) indexed_r init_sign_length = Inr (signature ro')"
      using list_all2_nthD[OF l j] a b eq by simp
    obtain sg where sg: "init_signature r (record_q_gram ro) indexed_r init_sign_length = Inr sg"
      "length sg = (if init_sign_length < 0
                  then nat (int (non_zero_count_per_record (record_q_gram ro) indexed_r) + init_sign_length)
                  else min (nat init_sign_length) (non_zero_count_per_record (record_q_gram ro) indexed_r))"
      using init_signature_defined[of r "record_q_gram ro" indexed_r init_sign_length] by blast
    have "sg = signature ro'" using c sg(1) by simp
    then show ?thesis using sg(2) a b c by (simp add: sig_length_def non_zero_count_def)
  qed
  show "map fst store = map fst record_store"
    using at len by (simp add: list_eq_iff_nth_eq)
  show 3: "map sig_length store =
           map (\<lambda>p. if init_sign_length < 0
                     then nat (int (non_zero_count indexed_r p) + init_sign_length)
                     else min (nat init_sign_length) (non_zero_count indexed_r p)) record_store"
    using at len by (simp add: list_eq_iff_nth_eq)
  show "map sig_length store =
           map (\<lambda>p. min (nat init_sign_length) (non_zero_count indexed_r p)) record_store"
    if "0 \<le> init_sign_length"
    using 3 that by simp
qed

lemma gen_init_int_signature_defined:
  assumes "record_store \<noteq> []"
  shows "\<exists>store. gen_init_int_signature r record_store indexed_r init_sign_length =
            Inr (Min (sig_length ` set store), store) \<and>
          init_signatures r record_store indexed_r init_sign_length = Inr store \<and> store \<noteq> []"
proof -
  obtain store where s: "init_signatures r record_store indexed_r init_sign_length = Inr store"
    using init_signatures_defined by blast
  have "length store = length record_store"
    using init_signatures_lengths(1)[OF s] by (metis length_map)
  then have ne: "store \<noteq> []" using assms by auto
  then have "min_list (map sig_length store) = Min (sig_length ` set store)"
    by (simp add: min_list_Min)
  then show ?thesis using s ne
    by (simp add: gen_init_int_signature_def sig_length_def)
qed





lemma extract_records_zero:
  "extract_records m store 0 =
     Inr (map (\<lambda>(rec_id, rec_obj).
        (rec_id, \<lparr>record_q_gram = record_q_gram rec_obj, signature = replicate m False\<rparr>)) store)"
  by (induction store) (auto simp: generate_bit_array_signature_def)

text \<open>
  Claim C9, as amended. If some record of either of two nonempty data sets has no reference
  set of nonzero similarity, the computation of \<^verbatim>\<open>num_1_bits\<close> does not fail: it
  yields 0. \<^verbatim>\<open>extract_signatures\<close> then raises nothing, keeps every record identifier of
  both data sets (that record's among them), and gives every record the all-zero bit
  array of the length of the pool.
\<close>

theorem empty_signature_record_is_encoded:
  assumes ne1: "data_dic1 \<noteq> []" and ne2: "data_dic2 \<noteq> []"
    and mem: "(rec_id, rec_obj) \<in> set (data_dic1 @ data_dic2)"
    and zero: "non_zero_count_per_record (record_q_gram rec_obj) indexed_r = 0"
  shows "\<exists>s1 s2 out1 out2.
     main_num_1_bits r data_dic1 data_dic2 indexed_r init_sign_length = Inr (0, s1, s2) \<and>
     extract_signatures indexed_r s1 0 = Inr out1 \<and>
     extract_signatures indexed_r s2 0 = Inr out2 \<and>
     map fst out1 = map fst data_dic1 \<and> map fst out2 = map fst data_dic2 \<and>
     rec_id \<in> set (map fst (out1 @ out2)) \<and>
     (\<forall>(rec_id', rec') \<in> set (out1 @ out2).
        signature rec' = replicate (length indexed_r) False)"
proof -
  obtain s1 where s1: "gen_init_int_signature r data_dic1 indexed_r init_sign_length =
            Inr (Min (sig_length ` set s1), s1)"
      "init_signatures r data_dic1 indexed_r init_sign_length = Inr s1" "s1 \<noteq> []"
    using gen_init_int_signature_defined[OF ne1] by blast
  obtain s2 where s2: "gen_init_int_signature r data_dic2 indexed_r init_sign_length =
            Inr (Min (sig_length ` set s2), s2)"
      "init_signatures r data_dic2 indexed_r init_sign_length = Inr s2" "s2 \<noteq> []"
    using gen_init_int_signature_defined[OF ne2] by blast
  let ?m1 = "Min (sig_length ` set s1)" and ?m2 = "Min (sig_length ` set s2)"
  let ?len = "\<lambda>p. if init_sign_length < 0
                     then nat (int (non_zero_count indexed_r p) + init_sign_length)
                     else min (nat init_sign_length) (non_zero_count indexed_r p)"
  have l1: "sig_length ` set s1 = ?len ` set data_dic1"
    using init_signatures_lengths(3)[OF s1(2)] by (metis (no_types, lifting) set_map)
  have l2: "sig_length ` set s2 = ?len ` set data_dic2"
    using init_signatures_lengths(3)[OF s2(2)] by (metis (no_types, lifting) set_map)
  have "?len (rec_id, rec_obj) = 0" using zero by (simp add: non_zero_count_def)
  then have "0 \<in> sig_length ` set (s1 @ s2)"
    using mem l1 l2 by (auto simp: image_Un image_iff)
  then have "Min (sig_length ` set (s1 @ s2)) = 0"
    by (metis List.finite_set Min_le finite_imageI le_zero_eq)
  moreover have "min ?m1 ?m2 = Min (sig_length ` set (s1 @ s2))"
    using s1(3) s2(3) by (simp add: image_Un Min_Un)
  ultimately have "min ?m1 ?m2 = 0" by simp
  then have main: "main_num_1_bits r data_dic1 data_dic2 indexed_r init_sign_length = Inr (0, s1, s2)"
    by (simp add: main_num_1_bits_def s1(1) s2(1))
  let ?enc = "map (\<lambda>(rec_id, rec_obj).
        (rec_id, \<lparr>record_q_gram = record_q_gram rec_obj,
                  signature = replicate (length indexed_r) False\<rparr>))"
  have e1: "extract_signatures indexed_r s1 0 = Inr (?enc s1)"
    and e2: "extract_signatures indexed_r s2 0 = Inr (?enc s2)"
    by (simp_all add: extract_signatures_def extract_records_zero)
  have k1: "map fst (?enc s1) = map fst data_dic1"
    using init_signatures_lengths(1)[OF s1(2)] by (simp add: case_prod_unfold comp_def)
  have k2: "map fst (?enc s2) = map fst data_dic2"
    using init_signatures_lengths(1)[OF s2(2)] by (simp add: case_prod_unfold comp_def)
  have "rec_id \<in> set (map fst (data_dic1 @ data_dic2))" using mem by force
  then have k3: "rec_id \<in> set (map fst (?enc s1 @ ?enc s2))"
    using k1 k2 by (metis map_append)
  have z: "\<forall>(rec_id', rec') \<in> set (?enc s1 @ ?enc s2).
        signature rec' = replicate (length indexed_r) False"
    by auto
  show ?thesis using main e1 e2 k1 k2 k3 z by blast
qed

subsection \<open>The signature encoder on concrete inputs\<close>

lemma ex_pool_keys: "distinct (map fst ex_pool)" "\<forall>i\<in>set (map fst ex_pool). i < length ex_pool"
  by (simp_all add: ex_pool_def)

lemma ex_store2_gen: "gen_init_int_signature exact ex_data2 ex_pool 4 = Inr (3, ex_store2)"
  by code_simp

lemma ex_store2_long: "\<forall>(rec_id, rec)\<in>set ex_store2. 3 \<le> length (signature rec)"
  by (simp add: ex_store2_def)

text \<open>Claim C1 at \<open>ex_pool\<close> and the records of \<open>ex_data2\<close>, with a budget of 3 bits.\<close>

theorem extract_signatures_top_bits_witness:
  "\<exists>out. extract_signatures ex_pool ex_store2 3 = Inr out \<and>
           length out = length ex_store2 \<and>
           (\<forall>j<length ex_store2.
              fst (out ! j) = fst (ex_store2 ! j) \<and>
              sorted_wrt (\<lambda>a b. snd a \<ge> snd b) (signature (snd (ex_store2 ! j))) \<and>
              length (signature (snd (out ! j))) = length ex_pool \<and>
              length (filter (\<lambda>b. b) (signature (snd (out ! j)))) = 3 \<and>
              (\<forall>p<length ex_pool.
                 signature (snd (out ! j)) ! p =
                   (p \<in> set (map fst (take 3 (signature (snd (ex_store2 ! j))))))))"
  by (rule extract_signatures_top_bits[OF ex_pool_keys ex_store2_gen ex_store2_long])




text \<open>
  Claim C9 as the specification states it fails: the record \<open>c1\<close> has no reference set of
  nonzero similarity, yet the budget is computed (it is 0) and \<open>c1\<close> receives a final
  signature.
\<close>

theorem empty_signature_counterexample:
  "non_zero_count_per_record {|''qq''|} ex_pool = 0 \<and>
   main_num_1_bits exact ex_data3 ex_data2 ex_pool 4 =
     Inr (0, [(''c1'', \<lparr>record_q_gram = {|''qq''|}, signature = []\<rparr>)], ex_store2) \<and>
   extract_signatures ex_pool [(''c1'', \<lparr>record_q_gram = {|''qq''|}, signature = []\<rparr>)] 0 =
     Inr [(''c1'', \<lparr>record_q_gram = {|''qq''|},
                   signature = [False, False, False, False, False]\<rparr>)]"
  by code_simp

text \<open>Claim C9 as amended, at the same input.\<close>

theorem empty_signature_record_is_encoded_witness:
  "\<exists>s1 s2 out1 out2.
     main_num_1_bits exact ex_data3 ex_data2 ex_pool 4 = Inr (0, s1, s2) \<and>
     extract_signatures ex_pool s1 0 = Inr out1 \<and>
     extract_signatures ex_pool s2 0 = Inr out2 \<and>
     map fst out1 = map fst ex_data3 \<and> map fst out2 = map fst ex_data2 \<and>
     ''c1'' \<in> set (map fst (out1 @ out2)) \<and>
     (\<forall>(rec_id', rec') \<in> set (out1 @ out2).
        signature rec' = replicate (length ex_pool) False)"
proof -
  have ne: "ex_data3 \<noteq> []" "ex_data2 \<noteq> []" by (simp_all add: ex_data3_def ex_data2_def)
  have mem: "(''c1'', \<lparr>record_q_gram = {|''qq''|}, signature = ()\<rparr>) \<in> set (ex_data3 @ ex_data2)"
    by (simp add: ex_data3_def)
  have zero: "non_zero_count_per_record (record_q_gram \<lparr>record_q_gram = {|''qq''|}, signature = ()\<rparr>) ex_pool = 0"
    by code_simp
  show ?thesis
    by (rule empty_signature_record_is_encoded[OF ne mem zero])
qed

subsection \<open>The rank-swap optimizer: selection of the extreme sets\<close>

lemma fold_min_first:
  fixes key :: "'a \<Rightarrow> 'k::linorder"
  shows "fold (\<lambda>y best. if key y < key best then y else best) rest x \<in> set (x # rest) \<and>
   (\<forall>y\<in>set (x # rest). key (fold (\<lambda>y best. if key y < key best then y else best) rest x) \<le> key y)"
proof (induction rest arbitrary: x)
  case Nil
  then show ?case by simp
next
  case (Cons a rest)
  let ?b = "if key a < key x then a else x"
  have b: "?b \<in> {a, x}" "key ?b \<le> key a" "key ?b \<le> key x" by auto
  from Cons[of ?b] b show ?case by (auto intro: order_trans)
qed

lemma fold_max_first:
  fixes key :: "'a \<Rightarrow> 'k::linorder"
  shows "fold (\<lambda>y best. if key best < key y then y else best) rest x \<in> set (x # rest) \<and>
   (\<forall>y\<in>set (x # rest). key y \<le> key (fold (\<lambda>y best. if key best < key y then y else best) rest x))"
proof (induction rest arbitrary: x)
  case Nil
  then show ?case by simp
next
  case (Cons a rest)
  let ?b = "if key x < key a then a else x"
  have b: "?b \<in> {a, x}" "key a \<le> key ?b" "key x \<le> key ?b" by auto
  from Cons[of ?b] b show ?case by (auto intro: order_trans)
qed

lemma py_min_least:
  assumes "py_min key xs = Inr m"
  shows "m \<in> set xs \<and> (\<forall>y\<in>set xs. key m \<le> key y)"
proof (cases xs)
  case Nil
  then show ?thesis using assms by (simp add: py_min_def)
next
  case (Cons x rest)
  then have "m = fold (\<lambda>y best. if key y < key best then y else best) rest x"
    using assms by (simp add: py_min_def)
  then show ?thesis using fold_min_first[of key rest x] Cons by simp
qed

lemma py_max_greatest:
  assumes "py_max key xs = Inr m"
  shows "m \<in> set xs \<and> (\<forall>y\<in>set xs. key y \<le> key m)"
proof (cases xs)
  case Nil
  then show ?thesis using assms by (simp add: py_max_def)
next
  case (Cons x rest)
  then have "m = fold (\<lambda>y best. if key best < key y then y else best) rest x"
    using assms by (simp add: py_max_def)
  then show ?thesis using fold_max_first[of key rest x] Cons by simp
qed

lemma select_min_max_Inr:
  assumes "select_min_max w = Inr (min_item, max_item)"
  shows "py_min score_index_key w = Inr min_item" "py_max score_index_key w = Inr max_item"
  using assms by (auto simp: select_min_max_def split: sum.splits)

lemma score_index_key_le:
  "score_index_key (i, s) \<le> score_index_key (j, t) \<longleftrightarrow>
     weighted_score s < weighted_score t \<or> (weighted_score s = weighted_score t \<and> i \<le> j)"
  by (auto simp: score_index_key_def less_eq_prod_def)

lemma select_min_max_props:
  assumes "select_min_max weighed_random_sets = Inr ((min_key, min_set), (max_key, max_set))"
  shows "(min_key, min_set) \<in> set weighed_random_sets \<and>
         (max_key, max_set) \<in> set weighed_random_sets \<and>
         (\<forall>(index, item)\<in>set weighed_random_sets.
            weighted_score min_set \<le> weighted_score item \<and>
            weighted_score item \<le> weighted_score max_set \<and>
            (weighted_score item = weighted_score min_set \<longrightarrow> min_key \<le> index) \<and>
            (weighted_score item = weighted_score max_set \<longrightarrow> index \<le> max_key))"
proof -
  have mn: "(min_key, min_set) \<in> set weighed_random_sets"
    "\<forall>y\<in>set weighed_random_sets. score_index_key (min_key, min_set) \<le> score_index_key y"
    using py_min_least[OF select_min_max_Inr(1)[OF assms]] by simp_all
  have mx: "(max_key, max_set) \<in> set weighed_random_sets"
    "\<forall>y\<in>set weighed_random_sets. score_index_key y \<le> score_index_key (max_key, max_set)"
    using py_max_greatest[OF select_min_max_Inr(2)[OF assms]] by simp_all
  have "weighted_score min_set \<le> weighted_score item \<and>
        weighted_score item \<le> weighted_score max_set \<and>
        (weighted_score item = weighted_score min_set \<longrightarrow> min_key \<le> index) \<and>
        (weighted_score item = weighted_score max_set \<longrightarrow> index \<le> max_key)"
    if "(index, item) \<in> set weighed_random_sets" for index item
    using mn(2) mx(2) that by (fastforce simp: score_index_key_le)
  then show ?thesis using mn(1) mx(1) by blast
qed

text \<open>
  Claim C7, as amended. In each pass of the optimizer the two selected reference sets are
  members of the pool, the first of globally least and the second of globally greatest
  weighted score. Among the sets of least score the minimum has the lowest index; among
  the sets of greatest score the maximum has the \<^emph>\<open>highest\<close> index, because the key of
  \<^verbatim>\<open>max\<close> is the same pair (score, index).
\<close>

theorem select_min_max_ties:
  assumes "select_min_max weighed_random_sets = Inr ((min_key, min_set), (max_key, max_set))"
  shows "(min_key, min_set) \<in> set weighed_random_sets \<and>
         (max_key, max_set) \<in> set weighed_random_sets \<and>
         (\<forall>(index, item)\<in>set weighed_random_sets.
            weighted_score min_set \<le> weighted_score item \<and>
            weighted_score item \<le> weighted_score max_set \<and>
            (weighted_score item = weighted_score min_set \<longrightarrow> min_key \<le> index) \<and>
            (weighted_score item = weighted_score max_set \<longrightarrow> index \<le> max_key))"
  by (rule select_min_max_props[OF assms])

subsection \<open>The rank-swap optimizer: what an accepted swap is\<close>

lemma scan_max_set_Some:
  assumes "scan_max_set r rs min_set max_set sorted_min min_element xs idx = Inr (Some sw, idx')"
  shows "\<exists>max_element\<in>set xs. max_element \<notin> set sorted_min \<and> snd min_element < snd max_element \<and>
           try_swap r rs min_set max_set min_element max_element = Inr (Some sw)"
  using assms
proof (induction xs arbitrary: idx)
  case Nil
  then show ?case by simp
next
  case (Cons x xs)
  show ?case
  proof (cases "x \<notin> set sorted_min \<and> snd x > snd min_element")
    case True
    show ?thesis
    proof (cases "try_swap r rs min_set max_set min_element x")
      case (Inl e)
      then show ?thesis using Cons.prems True by simp
    next
      case (Inr res)
      show ?thesis
      proof (cases res)
        case None
        then have "scan_max_set r rs min_set max_set sorted_min min_element xs (idx + 1) = Inr (Some sw, idx')"
          using Cons.prems True Inr by simp
        from Cons.IH[OF this] show ?thesis by auto
      next
        case (Some sw')
        then have "sw' = sw" using Cons.prems True Inr by simp
        then show ?thesis using True Inr Some by auto
      qed
    qed
  next
    case False
    then have "scan_max_set r rs min_set max_set sorted_min min_element xs (idx + 1) = Inr (Some sw, idx')"
      using Cons.prems by auto
    from Cons.IH[OF this] show ?thesis by auto
  qed
qed

lemma scan_min_set_Some:
  assumes "scan_min_set r rs min_set max_set sorted_min sorted_max xs mi xi = Inr (Some sw, mi', xi')"
  shows "\<exists>min_element\<in>set xs. \<exists>max_element\<in>set sorted_max.
           min_element \<notin> set sorted_max \<and> max_element \<notin> set sorted_min \<and>
           snd min_element < snd max_element \<and>
           try_swap r rs min_set max_set min_element max_element = Inr (Some sw)"
  using assms
proof (induction xs arbitrary: mi xi)
  case Nil
  then show ?case by simp
next
  case (Cons x xs)
  show ?case
  proof (cases "x \<notin> set sorted_max")
    case True
    show ?thesis
    proof (cases "scan_max_set r rs min_set max_set sorted_min x sorted_max 0")
      case (Inl e)
      then show ?thesis using Cons.prems True by simp
    next
      case (Inr res)
      obtain found idx where res: "res = (found, idx)" by (cases res)
      show ?thesis
      proof (cases found)
        case None
        then have "scan_min_set r rs min_set max_set sorted_min sorted_max xs (mi + 1) (Some idx)
                    = Inr (Some sw, mi', xi')"
          using Cons.prems True Inr res by simp
        from Cons.IH[OF this] show ?thesis by auto
      next
        case (Some sw')
        then have "sw' = sw" using Cons.prems True Inr res by simp
        then have "scan_max_set r rs min_set max_set sorted_min x sorted_max 0 = Inr (Some sw, idx)"
          using Inr res Some by simp
        from scan_max_set_Some[OF this] True show ?thesis by auto
      qed
    qed
  next
    case False
    then have "scan_min_set r rs min_set max_set sorted_min sorted_max xs (mi + 1) xi
                = Inr (Some sw, mi', xi')"
      using Cons.prems by auto
    from Cons.IH[OF this] show ?thesis by auto
  qed
qed

lemma set_sorted_min_set_of [simp]:
  "set (sorted_min_set_of ws) = set (random_q_gram_set_with_freq ws)"
  by (simp add: sorted_min_set_of_def)

lemma set_sorted_max_set_of [simp]:
  "set (sorted_max_set_of ws) = set (random_q_gram_set_with_freq ws)"
  by (simp add: sorted_max_set_of_def)

lemma swap_round_accepted:
  assumes "swap_round r rs idx w = Inr (Some w', idx')"
  shows "\<exists>min_key min_set max_key max_set min_element max_element sw.
    select_min_max w = Inr ((min_key, min_set), (max_key, max_set)) \<and>
    min_element \<in> set (random_q_gram_set_with_freq min_set) \<and>
    min_element \<notin> set (random_q_gram_set_with_freq max_set) \<and>
    max_element \<in> set (random_q_gram_set_with_freq max_set) \<and>
    max_element \<notin> set (random_q_gram_set_with_freq min_set) \<and>
    snd min_element < snd max_element \<and>
    try_swap r rs min_set max_set min_element max_element = Inr (Some sw) \<and>
    w' = AList.update max_key
           (modified_set (modified_max_value sw) (modified_max_value_weight sw))
           (AList.update min_key
              (modified_set (modified_min_value sw) (modified_min_value_weight sw)) w)"
proof (cases "select_min_max w")
  case (Inl e)
  then show ?thesis using assms by (simp add: swap_round_def)
next
  case (Inr sel)
  obtain min_key min_set max_key max_set where sel: "sel = ((min_key, min_set), (max_key, max_set))"
    by (metis surj_pair)
  let ?scan = "scan_min_set r rs min_set max_set (sorted_min_set_of min_set)
                 (sorted_max_set_of max_set) (sorted_min_set_of min_set) 0 idx"
  show ?thesis
  proof (cases ?scan)
    case (Inl e)
    then show ?thesis using assms Inr sel by (simp add: swap_round_def)
  next
    case scan: (Inr res)
    obtain found mi xi where res: "res = (found, mi, xi)" by (metis surj_pair)
    show ?thesis
    proof (cases found)
      case None
      then show ?thesis using assms Inr sel scan res
        by (simp add: swap_round_def split: option.splits if_splits)
    next
      case (Some sw)
      then have w': "w' = AList.update max_key
           (modified_set (modified_max_value sw) (modified_max_value_weight sw))
           (AList.update min_key
              (modified_set (modified_min_value sw) (modified_min_value_weight sw)) w)"
        using assms Inr sel scan res by (simp add: swap_round_def)
      have "?scan = Inr (Some sw, mi, xi)" using scan res Some by simp
      from scan_min_set_Some[OF this] w' Inr sel show ?thesis
        by (simp only: set_sorted_min_set_of set_sorted_max_set_of) blast
    qed
  qed
qed


subsection \<open>The rank-swap optimizer: the pool invariant\<close>

lemma replace_element_distinct:
  assumes "distinct xs" "new \<notin> set xs"
  shows "replace_element old new xs = map (\<lambda>element. if element = old then new else element) xs"
proof -
  have "inj_on (\<lambda>element. if element = old then new else element) (set xs)"
    using assms(2) by (auto simp: inj_on_def)
  then have "distinct (map (\<lambda>element. if element = old then new else element) xs)"
    using assms(1) by (simp add: distinct_map)
  then show ?thesis by (simp add: replace_element_def)
qed

lemma sum_list_replace:
  assumes "distinct xs" "old \<in> set xs"
  shows "sum_list (map snd (map (\<lambda>element. if element = old then new else element) xs)) =
         sum_list (map snd xs) - snd old + (snd new :: int)"
  using assms
proof (induction xs)
  case Nil
  then show ?case by simp
next
  case (Cons x xs)
  show ?case
  proof (cases "x = old")
    case True
    then have "old \<notin> set xs" using Cons.prems by simp
    then have "map (\<lambda>element. if element = old then new else element) xs = xs"
      by (induction xs) auto
    then show ?thesis using True by simp
  next
    case False
    then show ?thesis using Cons by simp
  qed
qed

lemma replace_element_props:
  assumes "distinct xs" "old \<in> set xs" "new \<notin> set xs"
  shows "distinct (replace_element old new xs)"
    and "length (replace_element old new xs) = length xs"
    and "set (replace_element old new xs) = insert new (set xs - {old})"
    and "sum_list (map snd (replace_element old new xs)) = sum_list (map snd xs) - snd old + snd new"
proof -
  have eq: "replace_element old new xs = map (\<lambda>element. if element = old then new else element) xs"
    using replace_element_distinct[OF assms(1,3)] .
  show "distinct (replace_element old new xs)" by (simp add: replace_element_def)
  show "length (replace_element old new xs) = length xs" by (simp add: eq)
  show "set (replace_element old new xs) = insert new (set xs - {old})"
    using assms(2) by (auto simp: eq)
  show "sum_list (map snd (replace_element old new xs)) = sum_list (map snd xs) - snd old + snd new"
    unfolding eq using sum_list_replace[OF assms(1,2)] .
qed

lemma try_swap_Some:
  assumes "try_swap r rs min_set max_set min_element max_element = Inr (Some sw)"
  shows "modified_min_value sw =
           replace_element min_element max_element (random_q_gram_set_with_freq min_set)"
    and "modified_max_value sw =
           replace_element max_element min_element (random_q_gram_set_with_freq max_set)"
    and "value_weight r (modified_min_value sw) = Inr (modified_min_value_weight sw)"
    and "value_weight r (modified_max_value sw) = Inr (modified_max_value_weight sw)"
    and "\<bar>fl r (modified_max_value_weight sw - modified_min_value_weight sw)\<bar>
           < fl r (weighted_score max_set - weighted_score min_set)"
    and "length (modified_min_value sw) = length (random_q_gram_set_with_freq min_set)"
proof -
  let ?mm = "replace_element min_element max_element (random_q_gram_set_with_freq min_set)"
  let ?mx = "replace_element max_element min_element (random_q_gram_set_with_freq max_set)"
  obtain wmin where wmin: "value_weight r ?mm = Inr wmin"
    using assms by (cases "value_weight r ?mm") (simp_all add: try_swap_def Let_def)
  obtain wmax where wmax: "value_weight r ?mx = Inr wmax"
    using assms wmin by (cases "value_weight r ?mx") (simp_all add: try_swap_def Let_def)
  let ?guard = "\<bar>fl r (wmax - wmin)\<bar> < fl r (weighted_score max_set - weighted_score min_set)
      \<and> PyFrozenset (fset_of_list ?mm) \<notin> rs \<and> PyFrozenset (fset_of_list ?mx) \<notin> rs"
  have unfolded: "try_swap r rs min_set max_set min_element max_element =
      (if ?guard then
         (if length ?mm \<noteq> length (random_q_gram_set_with_freq min_set) then Inl AssertionError
          else Inr (Some \<lparr>modified_min_value = ?mm, modified_min_value_weight = wmin,
                            modified_max_value = ?mx, modified_max_value_weight = wmax\<rparr>))
       else Inr None)"
    by (simp add: try_swap_def Let_def wmin wmax)
  have g: ?guard using assms unfolding unfolded by (cases ?guard) simp_all
  have len: "length ?mm = length (random_q_gram_set_with_freq min_set)"
    using assms g unfolding unfolded
    by (cases "length ?mm = length (random_q_gram_set_with_freq min_set)") simp_all
  have sw: "sw = \<lparr>modified_min_value = ?mm, modified_min_value_weight = wmin,
                            modified_max_value = ?mx, modified_max_value_weight = wmax\<rparr>"
    using assms g len unfolding unfolded by simp
  show "modified_min_value sw = ?mm" "modified_max_value sw = ?mx"
    "value_weight r (modified_min_value sw) = Inr (modified_min_value_weight sw)"
    "value_weight r (modified_max_value sw) = Inr (modified_max_value_weight sw)"
    "\<bar>fl r (modified_max_value_weight sw - modified_min_value_weight sw)\<bar>
           < fl r (weighted_score max_set - weighted_score min_set)"
    "length (modified_min_value sw) = length (random_q_gram_set_with_freq min_set)"
    using sw wmin wmax g len by simp_all
qed

lemma value_weight_Inr:
  "value_weight r xs = Inr w \<Longrightarrow>
     xs \<noteq> [] \<and> w = fl r (of_int (sum_list (map snd xs)) / of_nat (length xs))"
  by (auto simp: value_weight_def split: if_splits)

lemma in_set_update:
  "distinct (map fst al) \<Longrightarrow> (i, v) \<in> set (AList.update k u al) \<Longrightarrow>
     (i, v) = (k, u) \<or> ((i, v) \<in> set al \<and> i \<noteq> k)"
  by (induction al) (auto split: if_splits simp: rev_image_eqI)

lemma in_set_update_same:
  "distinct (map fst al) \<Longrightarrow> k \<in> fst ` set al \<Longrightarrow> (k, u) \<in> set (AList.update k u al)"
  by (induction al) (auto split: if_splits)

lemma in_set_update_other:
  "(i, v) \<in> set al \<Longrightarrow> i \<noteq> k \<Longrightarrow> (i, v) \<in> set (AList.update k u al)"
  by (induction al) (auto split: if_splits)

lemma keys_update:
  "k \<in> fst ` set al \<Longrightarrow> map fst (AList.update k u al) = map fst al"
  by (induction al) (auto split: if_splits)

lemma wf_set_distinct_q_grams:
  assumes "wf_set r freq n item"
  shows "distinct (map fst (random_q_gram_set_with_freq item))"
proof -
  let ?xs = "random_q_gram_set_with_freq item"
  have d: "distinct ?xs" using assms by (simp add: wf_set_def)
  have f: "snd p = freq (fst p)" if "p \<in> set ?xs" for p
    using assms that by (auto simp: wf_set_def)
  have "x = y" if x: "x \<in> set ?xs" and y: "y \<in> set ?xs" and e: "fst x = fst y" for x y
    using f[OF x] f[OF y] e by (simp add: prod_eq_iff)
  then have "inj_on fst (set ?xs)" by (rule inj_onI)
  then show ?thesis using d by (simp add: distinct_map)
qed

lemma wf_set_fcard:
  assumes "wf_set r freq n item"
  shows "fcard (random_set_only item) = n"
proof -
  have "fcard (fset_of_list (map fst (random_q_gram_set_with_freq item))) =
        length (map fst (random_q_gram_set_with_freq item))"
    using wf_set_distinct_q_grams[OF assms]
    by (simp only: fcard.rep_eq fset_of_list.rep_eq distinct_card)
  then show ?thesis using assms by (simp add: wf_set_def)
qed

lemma wf_set_modified:
  assumes wf: "wf_set r freq n item"
    and old: "old \<in> set (random_q_gram_set_with_freq item)"
    and new: "new \<notin> set (random_q_gram_set_with_freq item)" "snd new = freq (fst new)"
    and w: "value_weight r (replace_element old new (random_q_gram_set_with_freq item)) = Inr weight"
  shows "wf_set r freq n (modified_set (replace_element old new (random_q_gram_set_with_freq item)) weight)"
proof -
  let ?xs = "random_q_gram_set_with_freq item"
  have d: "distinct ?xs" and l: "length ?xs = n"
    and f: "\<forall>(q_gram, f)\<in>set ?xs. f = freq q_gram"
    using wf by (simp_all add: wf_set_def)
  note p = replace_element_props[OF d old new(1)]
  have "\<forall>(q_gram, f)\<in>set (replace_element old new ?xs). f = freq q_gram"
    using f new(2) by (auto simp: p(3))
  moreover have "weight = fl r (of_int (sum_list (map snd (replace_element old new ?xs))) / of_nat n)"
    using value_weight_Inr[OF w] p(2) l by simp
  ultimately show ?thesis
    using p(1,2) l by (simp add: wf_set_def modified_set_def)
qed

subsection \<open>The selection on a concrete pool\<close>

lemma tie_pool_weighed:
  "weigh_random_sets exact [(0, [''aa'', ''bb'']), (1, [''cc'', ''dd''])] Map.empty = Inr tie_pool"
  by code_simp

lemma tie_pool_select:
  "select_min_max tie_pool =
     Inr ((0, \<lparr>random_q_gram_set_with_freq = [(''aa'', 1), (''bb'', 1)],
                random_set_only = {|''aa'', ''bb''|}, weighted_score = 1\<rparr>),
          (1, \<lparr>random_q_gram_set_with_freq = [(''cc'', 1), (''dd'', 1)],
                random_set_only = {|''cc'', ''dd''|}, weighted_score = 1\<rparr>))"
  by code_simp

text \<open>
  Claim C7 as the specification states it fails for the maximum: the two reference sets
  of \<open>tie_pool\<close> have the same weighted score, and the set selected as maximum is the one
  with index 1, not the one with the lower index 0.
\<close>

theorem select_min_max_ties_counterexample:
  "weigh_random_sets exact [(0, [''aa'', ''bb'']), (1, [''cc'', ''dd''])] Map.empty = Inr tie_pool \<and>
   map (weighted_score \<circ> snd) tie_pool = [1, 1] \<and>
   map_sum (\<lambda>e. e) (\<lambda>(min_item, max_item). (fst min_item, fst max_item)) (select_min_max tie_pool)
     = Inr (0, 1)"
  by code_simp

text \<open>Claim C7 as amended, at \<open>tie_pool\<close>.\<close>

theorem select_min_max_ties_witness:
  "\<exists>min_set max_set.
     select_min_max tie_pool = Inr ((0, min_set), (1, max_set)) \<and>
     (0, min_set) \<in> set tie_pool \<and> (1, max_set) \<in> set tie_pool \<and>
     (\<forall>(index, item)\<in>set tie_pool.
        weighted_score min_set \<le> weighted_score item \<and>
        weighted_score item \<le> weighted_score max_set \<and>
        (weighted_score item = weighted_score min_set \<longrightarrow> 0 \<le> index) \<and>
        (weighted_score item = weighted_score max_set \<longrightarrow> index \<le> 1))"
  using select_min_max_ties[OF tie_pool_select] tie_pool_select by blast

subsection \<open>The rank-swap optimizer: cardinality is preserved\<close>

lemma qs_r_with_freq_wf:
  assumes "distinct qs_r" "qs_r \<noteq> []"
  shows "wf_set r (freq_of q) (length qs_r)
     \<lparr>random_q_gram_set_with_freq = qs_r_with_freq q qs_r,
      random_set_only = fset_of_list qs_r,
      weighted_score = fl r (of_int (sum_list (map snd (qs_r_with_freq q qs_r))) /
                             of_nat (length (qs_r_with_freq q qs_r)))\<rparr>"
proof -
  have eq: "qs_r_with_freq q qs_r = map (\<lambda>g. (g, freq_of q g)) qs_r"
    by (simp add: qs_r_with_freq_def freq_of_def)
  have "distinct (map (\<lambda>g. (g, freq_of q g)) qs_r)"
    using assms(1) by (simp add: distinct_map inj_on_def)
  moreover have "map fst (map (\<lambda>g. (g, freq_of q g)) qs_r) = qs_r"
    by (simp add: comp_def)
  ultimately show ?thesis
    by (auto simp: wf_set_def eq)
qed

lemma weigh_random_sets_inv:
  assumes "weigh_random_sets r rows q = Inr w" "distinct (map fst rows)"
    "\<forall>(index, qs_r)\<in>set rows. distinct qs_r \<and> length qs_r = len_of index"
  shows "pool_inv r (freq_of q) len_of w \<and> map fst w = map fst rows"
  using assms
proof (induction rows arbitrary: w)
  case Nil
  then show ?case by (simp add: pool_inv_def)
next
  case (Cons p rows)
  obtain index qs_r where p: "p = (index, qs_r)" by (cases p)
  have ne: "qs_r \<noteq> []"
    using Cons.prems(1) p by (auto simp: Let_def qs_r_with_freq_def split: if_splits)
  obtain w1 where w1: "weigh_random_sets r rows q = Inr w1"
    using Cons.prems(1) p ne
    by (cases "weigh_random_sets r rows q") (simp_all add: Let_def qs_r_with_freq_def)
  let ?item = "\<lparr>random_q_gram_set_with_freq = qs_r_with_freq q qs_r,
      random_set_only = fset_of_list qs_r,
      weighted_score = fl r (of_int (sum_list (map snd (qs_r_with_freq q qs_r))) /
                             of_nat (length (qs_r_with_freq q qs_r)))\<rparr>"
  have w: "w = (index, ?item) # w1"
    using Cons.prems(1) p ne w1 by (simp add: Let_def qs_r_with_freq_def)
  have ih: "pool_inv r (freq_of q) len_of w1 \<and> map fst w1 = map fst rows"
    using Cons.IH[OF w1] Cons.prems(2,3) by simp
  have d: "distinct qs_r" and l: "length qs_r = len_of index"
    using Cons.prems(3) p by auto
  have "wf_set r (freq_of q) (len_of index) ?item"
    using qs_r_with_freq_wf[OF d ne, of r q] l by simp
  then show ?case
    using ih w p Cons.prems(2) by (simp add: pool_inv_def)
qed

lemma swap_round_inv:
  assumes inv: "pool_inv r freq len_of w" and sw: "swap_round r rs idx w = Inr (Some w', idx')"
  shows "pool_inv r freq len_of w' \<and> map fst w' = map fst w"
proof -
  obtain min_key min_set max_key max_set min_element max_element s where
    sel: "select_min_max w = Inr ((min_key, min_set), (max_key, max_set))"
    and mn: "min_element \<in> set (random_q_gram_set_with_freq min_set)"
      "min_element \<notin> set (random_q_gram_set_with_freq max_set)"
    and mx: "max_element \<in> set (random_q_gram_set_with_freq max_set)"
      "max_element \<notin> set (random_q_gram_set_with_freq min_set)"
    and ts: "try_swap r rs min_set max_set min_element max_element = Inr (Some s)"
    and w': "w' = AList.update max_key
           (modified_set (modified_max_value s) (modified_max_value_weight s))
           (AList.update min_key
              (modified_set (modified_min_value s) (modified_min_value_weight s)) w)"
    using swap_round_accepted[OF sw] by blast
  have mem: "(min_key, min_set) \<in> set w" "(max_key, max_set) \<in> set w"
    using select_min_max_props[OF sel] by simp_all
  have d: "distinct (map fst w)" and wf: "\<And>i v. (i, v) \<in> set w \<Longrightarrow> wf_set r freq (len_of i) v"
    using inv by (auto simp: pool_inv_def)
  have f: "snd p = freq (fst p)" if "p \<in> set (random_q_gram_set_with_freq v)" "(i, v) \<in> set w"
    for p i v
    using wf[OF that(2)] that(1) by (auto simp: wf_set_def)
  let ?m1 = "modified_set (modified_min_value s) (modified_min_value_weight s)"
  let ?m2 = "modified_set (modified_max_value s) (modified_max_value_weight s)"
  note t = try_swap_Some[OF ts]
  have wf1: "wf_set r freq (len_of min_key) ?m1"
    using wf_set_modified[OF wf[OF mem(1)] mn(1) mx(2) f[OF mx(1) mem(2)]] t(1,3) by simp
  have wf2: "wf_set r freq (len_of max_key) ?m2"
    using wf_set_modified[OF wf[OF mem(2)] mx(1) mn(2) f[OF mn(1) mem(1)]] t(2,4) by simp
  let ?w1 = "AList.update min_key ?m1 w"
  have k1: "map fst ?w1 = map fst w"
    using mem(1) by (intro keys_update) force
  have k2: "map fst w' = map fst w"
    unfolding w' using mem(2) k1 by (metis image_eqI fst_conv keys_update list.set_map)
  have d1: "distinct (map fst ?w1)" using d k1 by simp
  have "wf_set r freq (len_of i) v" if iv: "(i, v) \<in> set w'" for i v
  proof -
    from in_set_update[OF d1 iv[unfolded w']]
    consider "(i, v) = (max_key, ?m2)" | "(i, v) \<in> set ?w1" "i \<noteq> max_key" by blast
    then show ?thesis
    proof cases
      case 1
      then show ?thesis using wf2 by simp
    next
      case 2
      from in_set_update[OF d 2(1)]
      consider "(i, v) = (min_key, ?m1)" | "(i, v) \<in> set w" by blast
      then show ?thesis using wf1 wf by cases auto
    qed
  qed
  then show ?thesis using d k2 by (auto simp: pool_inv_def)
qed

lemma after_swaps_inv:
  assumes "pool_inv r freq len_of w" "after_swaps n r rs idx w = Some (w', idx')"
  shows "pool_inv r freq len_of w' \<and> map fst w' = map fst w"
  using assms
proof (induction n arbitrary: w idx)
  case 0
  then show ?case by simp
next
  case (Suc n)
  obtain w1 idx1 where w1: "swap_round r rs idx w = Inr (Some w1, idx1)"
    "after_swaps n r rs idx1 w1 = Some (w', idx')"
    using Suc.prems(2) by (auto split: sum.splits option.splits prod.splits)
  have "pool_inv r freq len_of w1 \<and> map fst w1 = map fst w"
    using swap_round_inv[OF Suc.prems(1) w1(1)] .
  then show ?case using Suc.IH[OF _ w1(2)] by simp
qed

text \<open>
  Claim C6. Let the rows of the reference-set file have pairwise distinct q-grams,
  \<open>r_length\<close> each. Then after \<^verbatim>\<open>weigh_random_sets\<close> and after any number of accepted
  swaps the pool has the same indices, and every reference set has exactly \<open>r_length\<close>
  members, in its set-only view and in its view with frequencies, which agree. In
  particular the two sets a swap modifies keep their cardinality.
\<close>

theorem swaps_preserve_cardinality:
  assumes keys: "distinct (map fst random_sets)"
    and rows: "\<forall>(index, qs_r)\<in>set random_sets. distinct qs_r \<and> length qs_r = r_length"
    and weigh: "weigh_random_sets r random_sets q_gram_freq = Inr weighed"
    and swaps: "after_swaps n r (random_sets_of weighed) None weighed = Some (swapped, idx)"
  shows "map fst swapped = map fst random_sets \<and>
         (\<forall>(index, item)\<in>set swapped.
            fcard (random_set_only item) = r_length \<and>
            length (random_q_gram_set_with_freq item) = r_length \<and>
            distinct (random_q_gram_set_with_freq item) \<and>
            random_set_only item = fset_of_list (map fst (random_q_gram_set_with_freq item)))"
proof -
  have inv0: "pool_inv r (freq_of q_gram_freq) (\<lambda>_. r_length) weighed"
    and k0: "map fst weighed = map fst random_sets"
    using weigh_random_sets_inv[OF weigh keys, of "\<lambda>_. r_length"] rows by simp_all
  have inv: "pool_inv r (freq_of q_gram_freq) (\<lambda>_. r_length) swapped"
    and k: "map fst swapped = map fst weighed"
    using after_swaps_inv[OF inv0 swaps] by simp_all
  have "fcard (random_set_only item) = r_length \<and>
            length (random_q_gram_set_with_freq item) = r_length \<and>
            distinct (random_q_gram_set_with_freq item) \<and>
            random_set_only item = fset_of_list (map fst (random_q_gram_set_with_freq item))"
    if "(index, item) \<in> set swapped" for index item
  proof -
    have wf: "wf_set r (freq_of q_gram_freq) r_length item"
      using inv that by (auto simp: pool_inv_def)
    show ?thesis using wf_set_fcard[OF wf] wf by (simp add: wf_set_def)
  qed
  then show ?thesis using k k0 by auto
qed

subsection \<open>The rank-swap optimizer: the weight spread\<close>

lemma fl_reflects_less: "fl r x < fl r y \<Longrightarrow> x < y"
  using fl_mono[of y x r] by (cases "x < y") auto

lemma rounded_swap_bounds:
  assumes e: "0 < e"
    and guard: "\<bar>fl r (fl r (y - e) - fl r (x + e))\<bar> < fl r (fl r y - fl r x)"
  shows "fl r x \<le> fl r (x + e)" "fl r (x + e) \<le> fl r y"
        "fl r x \<le> fl r (y - e)" "fl r (y - e) \<le> fl r y"
proof -
  let ?u = "fl r (y - e) - fl r (x + e)" and ?v = "fl r y - fl r x"
  show 1: "fl r x \<le> fl r (x + e)" using e by (intro fl_mono) simp
  show 4: "fl r (y - e) \<le> fl r y" using e by (intro fl_mono) simp
  have crossing: False if "y - e < x" "?u < - ?v"
  proof -
    have "fl r ?u \<le> fl r (- ?v)" using that(2) by (intro fl_mono) simp
    then have "fl r ?u \<le> - fl r ?v" by (simp only: fl_minus)
    then have "fl r ?v \<le> \<bar>fl r ?u\<bar>" by linarith
    then show False using guard by linarith
  qed
  show "fl r (x + e) \<le> fl r y"
  proof (rule ccontr)
    assume "\<not> fl r (x + e) \<le> fl r y"
    then have less: "fl r y < fl r (x + e)" by simp
    then have "y < x + e" by (rule fl_reflects_less)
    then have yx: "y - e < x" by simp
    then have "fl r (y - e) \<le> fl r x" by (intro fl_mono) simp
    then have "?u < - ?v" using less by linarith
    then show False using crossing yx by blast
  qed
  show "fl r x \<le> fl r (y - e)"
  proof (rule ccontr)
    assume "\<not> fl r x \<le> fl r (y - e)"
    then have less: "fl r (y - e) < fl r x" by simp
    then have yx: "y - e < x" by (rule fl_reflects_less)
    then have "fl r y \<le> fl r (x + e)" by (intro fl_mono) simp
    then have "?u < - ?v" using less by linarith
    then show False using crossing yx by blast
  qed
qed

lemma weight_spread_mono:
  assumes ne: "w' \<noteq> []" "w \<noteq> []"
    and bound: "\<forall>s\<in>set (map (weighted_score \<circ> snd) w').
        Min (set (map (weighted_score \<circ> snd) w)) \<le> s \<and> s \<le> Max (set (map (weighted_score \<circ> snd) w))"
  shows "weight_spread w' \<le> weight_spread w"
proof -
  let ?S' = "set (map (weighted_score \<circ> snd) w')" and ?S = "set (map (weighted_score \<circ> snd) w)"
  have f: "finite ?S'" "?S' \<noteq> {}" using ne by simp_all
  have "Max ?S' \<le> Max ?S" using bound f by (simp add: Max_le_iff del: set_map)
  moreover have "Min ?S \<le> Min ?S'" using bound f by (simp add: Min_ge_iff del: set_map)
  ultimately show ?thesis by (simp add: weight_spread_def)
qed

lemma same_key_same_item:
  "distinct (map fst al) \<Longrightarrow> (k, a) \<in> set al \<Longrightarrow> (k, b) \<in> set al \<Longrightarrow> a = b"
  by (metis eq_key_imp_eq_value)

lemma weighted_score_modified_set [simp]: "weighted_score (modified_set xs w) = w"
  by (simp add: modified_set_def)

lemma swap_round_spread:
  assumes inv: "pool_inv r freq (\<lambda>_. n) w" and sw: "swap_round r rs idx w = Inr (Some w', idx')"
  shows "weight_spread w' \<le> weight_spread w \<and>
    (\<exists>min_key min_set max_key max_set new_min new_max.
       select_min_max w = Inr ((min_key, min_set), (max_key, max_set)) \<and>
       map_of w' min_key = Some new_min \<and> map_of w' max_key = Some new_max \<and>
       \<bar>fl r (weighted_score new_max - weighted_score new_min)\<bar>
         < fl r (weighted_score max_set - weighted_score min_set))"
proof -
  obtain min_key min_set max_key max_set min_element max_element s where
    sel: "select_min_max w = Inr ((min_key, min_set), (max_key, max_set))"
    and mn: "min_element \<in> set (random_q_gram_set_with_freq min_set)"
      "min_element \<notin> set (random_q_gram_set_with_freq max_set)"
    and mx: "max_element \<in> set (random_q_gram_set_with_freq max_set)"
      "max_element \<notin> set (random_q_gram_set_with_freq min_set)"
    and lt: "snd min_element < snd max_element"
    and ts: "try_swap r rs min_set max_set min_element max_element = Inr (Some s)"
    and w': "w' = AList.update max_key
           (modified_set (modified_max_value s) (modified_max_value_weight s))
           (AList.update min_key
              (modified_set (modified_min_value s) (modified_min_value_weight s)) w)"
    using swap_round_accepted[OF sw] by blast
  note props = select_min_max_props[OF sel]
  have mem: "(min_key, min_set) \<in> set w" "(max_key, max_set) \<in> set w"
    using props by simp_all
  have between: "weighted_score min_set \<le> weighted_score item \<and>
                 weighted_score item \<le> weighted_score max_set"
    if "(index, item) \<in> set w" for index item
    using props that by blast
  have d: "distinct (map fst w)" and wf: "\<And>i v. (i, v) \<in> set w \<Longrightarrow> wf_set r freq n v"
    using inv by (auto simp: pool_inv_def)
  let ?xs = "random_q_gram_set_with_freq min_set" and ?ys = "random_q_gram_set_with_freq max_set"
  let ?A = "sum_list (map snd ?xs)" and ?B = "sum_list (map snd ?ys)"
  have wfmin: "distinct ?xs" "length ?xs = n"
      "weighted_score min_set = fl r (of_int ?A / of_nat n)"
    using wf[OF mem(1)] by (simp_all add: wf_set_def)
  have wfmax: "distinct ?ys" "length ?ys = n"
      "weighted_score max_set = fl r (of_int ?B / of_nat n)"
    using wf[OF mem(2)] by (simp_all add: wf_set_def)
  have npos: "0 < n" using wfmin(2) mn(1) by (cases ?xs) auto
  note t = try_swap_Some[OF ts]
  note pmin = replace_element_props[OF wfmin(1) mn(1) mx(2)]
  note pmax = replace_element_props[OF wfmax(1) mx(1) mn(2)]
  let ?d = "snd max_element - snd min_element"
  let ?x = "(of_int ?A :: rat) / of_nat n" and ?y = "(of_int ?B :: rat) / of_nat n"
  let ?e = "(of_int ?d :: rat) / of_nat n"
  have e: "0 < ?e" using lt npos by simp
  have nw_min: "modified_min_value_weight s = fl r (?x + ?e)"
  proof -
    have "modified_min_value_weight s =
        fl r (of_int (sum_list (map snd (modified_min_value s))) / of_nat (length (modified_min_value s)))"
      using value_weight_Inr[OF t(3)] by simp
    also have "sum_list (map snd (modified_min_value s)) = ?A + ?d"
      using pmin(4) by (simp add: t(1))
    also have "length (modified_min_value s) = n"
      using pmin(2) wfmin(2) by (simp add: t(1))
    finally show ?thesis by (simp add: add_divide_distrib)
  qed
  have nw_max: "modified_max_value_weight s = fl r (?y - ?e)"
  proof -
    have "modified_max_value_weight s =
        fl r (of_int (sum_list (map snd (modified_max_value s))) / of_nat (length (modified_max_value s)))"
      using value_weight_Inr[OF t(4)] by simp
    also have "sum_list (map snd (modified_max_value s)) = ?B - ?d"
      using pmax(4) by (simp add: t(2))
    also have "length (modified_max_value s) = n"
      using pmax(2) wfmax(2) by (simp add: t(2))
    finally show ?thesis by (simp add: diff_divide_distrib)
  qed
  have guard: "\<bar>fl r (fl r (?y - ?e) - fl r (?x + ?e))\<bar> < fl r (fl r ?y - fl r ?x)"
    using t(5) by (simp only: nw_min nw_max wfmin(3) wfmax(3))
  note b = rounded_swap_bounds[OF e guard]
  let ?wmin = "weighted_score min_set" and ?wmax = "weighted_score max_set"
  have in_range: "?wmin \<le> modified_min_value_weight s" "modified_min_value_weight s \<le> ?wmax"
      "?wmin \<le> modified_max_value_weight s" "modified_max_value_weight s \<le> ?wmax"
    using b by (simp_all only: nw_min nw_max wfmin(3) wfmax(3))
  let ?m1 = "modified_set (modified_min_value s) (modified_min_value_weight s)"
  let ?m2 = "modified_set (modified_max_value s) (modified_max_value_weight s)"
  let ?w1 = "AList.update min_key ?m1 w"
  have neq: "min_key \<noteq> max_key"
  proof
    assume "min_key = max_key"
    then have "min_set = max_set" using same_key_same_item[OF d] mem by blast
    then show False using mn by simp
  qed
  have k1: "map fst ?w1 = map fst w"
    using mem(1) by (intro keys_update) force
  have d1: "distinct (map fst ?w1)" using d k1 by simp
  have k2: "map fst w' = map fst w"
    unfolding w' using mem(2) k1 by (metis image_eqI fst_conv keys_update list.set_map)
  have lookup: "map_of w' min_key = Some ?m1" "map_of w' max_key = Some ?m2"
    using neq by (simp_all add: w' update_conv')
  have S: "finite (set (map (weighted_score \<circ> snd) w))"
      "?wmin \<in> set (map (weighted_score \<circ> snd) w)" "?wmax \<in> set (map (weighted_score \<circ> snd) w)"
    using mem by force+
  have lo: "Min (set (map (weighted_score \<circ> snd) w)) \<le> ?wmin"
    using S(1,2) by (rule Min_le)
  have hi: "?wmax \<le> Max (set (map (weighted_score \<circ> snd) w))"
    using S(1,3) by (rule Max_ge)
  have item_range: "?wmin \<le> weighted_score v \<and> weighted_score v \<le> ?wmax"
    if iv: "(i, v) \<in> set w'" for i v
  proof -
    from in_set_update[OF d1 iv[unfolded w']]
    consider "(i, v) = (max_key, ?m2)" | "(i, v) \<in> set ?w1" "i \<noteq> max_key" by blast
    then show ?thesis
    proof cases
      case 1
      then show ?thesis using in_range by simp
    next
      case 2
      from in_set_update[OF d 2(1)]
      consider "(i, v) = (min_key, ?m1)" | "(i, v) \<in> set w" by blast
      then show ?thesis using in_range between by cases auto
    qed
  qed
  have "\<forall>sc\<in>set (map (weighted_score \<circ> snd) w').
        Min (set (map (weighted_score \<circ> snd) w)) \<le> sc \<and> sc \<le> Max (set (map (weighted_score \<circ> snd) w))"
  proof
    fix sc assume "sc \<in> set (map (weighted_score \<circ> snd) w')"
    then obtain i v where "(i, v) \<in> set w'" "sc = weighted_score v" by auto
    then show "Min (set (map (weighted_score \<circ> snd) w)) \<le> sc \<and>
               sc \<le> Max (set (map (weighted_score \<circ> snd) w))"
      using item_range lo hi by force
  qed
  moreover have "w \<noteq> []" using mem(1) by auto
  moreover have "w' \<noteq> []" using k2 \<open>w \<noteq> []\<close> by (metis map_is_Nil_conv)
  ultimately have spread: "weight_spread w' \<le> weight_spread w"
    by (intro weight_spread_mono) simp_all
  have "\<bar>fl r (weighted_score ?m2 - weighted_score ?m1)\<bar> < fl r (?wmax - ?wmin)"
    using t(5) by simp
  then show ?thesis using spread sel lookup by blast
qed

text \<open>
  Claim C3. Let the rows of the reference-set file have pairwise distinct q-grams,
  \<open>r_length\<close> each, and let \<open>pool\<close> be the weighed pool after any number of accepted
  swaps. If the next pass accepts a swap, the pool-wide weight spread (greatest minus
  least weighted score) does not grow, and the range recomputed in floating point from
  the new weights of the two modified sets is strictly smaller than the range computed
  from the weights of the selected maximum and minimum before the swap. The rounding of
  the float operations is any monotone, odd rounding.
\<close>

theorem accepted_swap_shrinks_spread:
  assumes keys: "distinct (map fst random_sets)"
    and rows: "\<forall>(index, qs_r)\<in>set random_sets. distinct qs_r \<and> length qs_r = r_length"
    and weigh: "weigh_random_sets r random_sets q_gram_freq = Inr weighed"
    and swaps: "after_swaps n r (random_sets_of weighed) None weighed = Some (pool, idx)"
    and accepted: "swap_round r (random_sets_of weighed) idx pool = Inr (Some swapped, idx')"
  shows "weight_spread swapped \<le> weight_spread pool \<and>
    (\<exists>min_key min_set max_key max_set new_min new_max.
       select_min_max pool = Inr ((min_key, min_set), (max_key, max_set)) \<and>
       map_of swapped min_key = Some new_min \<and> map_of swapped max_key = Some new_max \<and>
       \<bar>fl r (weighted_score new_max - weighted_score new_min)\<bar>
         < fl r (weighted_score max_set - weighted_score min_set))"
proof -
  have inv0: "pool_inv r (freq_of q_gram_freq) (\<lambda>_. r_length) weighed"
    using weigh_random_sets_inv[OF weigh keys, of "\<lambda>_. r_length"] rows by simp
  have inv: "pool_inv r (freq_of q_gram_freq) (\<lambda>_. r_length) pool"
    using after_swaps_inv[OF inv0 swaps] by simp
  show ?thesis by (rule swap_round_spread[OF inv accepted])
qed

subsection \<open>The rank-swap optimizer on a concrete pool\<close>

lemma bug_rows_keys: "distinct (map fst bug_rows)"
  by (simp add: bug_rows_def)

lemma bug_rows_wf: "\<forall>(index, qs_r)\<in>set bug_rows. distinct qs_r \<and> length qs_r = 2"
  by (simp add: bug_rows_def)

lemma bug_pool_weighed: "weigh_random_sets exact bug_rows bug_freq = Inr bug_pool"
  by code_simp

lemma bug_pool_start:
  "after_swaps 0 exact (random_sets_of bug_pool) None bug_pool = Some (bug_pool, None)"
  by simp

lemma bug_pool_round:
  "swap_round exact (random_sets_of bug_pool) None bug_pool = Inr (Some bug_swapped, Some 1)"
  by code_simp

lemma bug_pool_swapped:
  "after_swaps 1 exact (random_sets_of bug_pool) None bug_pool = Some (bug_swapped, Some 1)"
  by code_simp

text \<open>Claim C6 at the rows \<open>bug_rows\<close>, after one accepted swap.\<close>

theorem swaps_preserve_cardinality_witness:
  "\<exists>swapped idx. after_swaps 1 exact (random_sets_of bug_pool) None bug_pool = Some (swapped, idx) \<and>
     map fst swapped = map fst bug_rows \<and>
         (\<forall>(index, item)\<in>set swapped.
            fcard (random_set_only item) = 2 \<and>
            length (random_q_gram_set_with_freq item) = 2 \<and>
            distinct (random_q_gram_set_with_freq item) \<and>
            random_set_only item = fset_of_list (map fst (random_q_gram_set_with_freq item)))"
  using swaps_preserve_cardinality[OF bug_rows_keys bug_rows_wf bug_pool_weighed bug_pool_swapped]
    bug_pool_swapped by blast

text \<open>
  Claim C3 at the same rows, for the first swap: the spread falls from 5/2 to 3/2.
\<close>

theorem accepted_swap_shrinks_spread_witness:
  "weight_spread bug_swapped \<le> weight_spread bug_pool \<and>
    (\<exists>min_key min_set max_key max_set new_min new_max.
       select_min_max bug_pool = Inr ((min_key, min_set), (max_key, max_set)) \<and>
       map_of bug_swapped min_key = Some new_min \<and> map_of bug_swapped max_key = Some new_max \<and>
       \<bar>fl exact (weighted_score new_max - weighted_score new_min)\<bar>
         < fl exact (weighted_score max_set - weighted_score min_set))"
  by (rule accepted_swap_shrinks_spread[OF bug_rows_keys bug_rows_wf bug_pool_weighed
        bug_pool_start bug_pool_round])

text \<open>
  The test of line 50 never rejects a swap: \<^verbatim>\<open>random_sets\<close> holds tuples only.
\<close>

lemma random_sets_hold_no_set: "PyFrozenset s \<notin> random_sets_of weighed_random_sets"
  by (auto simp: random_sets_of_def)

text \<open>
  Claim C5 fails on the script. The three rows of \<open>bug_rows\<close> are pairwise distinct as
  sets. The optimizer swaps \<open>xa\<close> of set 0 against \<open>za\<close> of set 1, which makes set 0 equal
  to set 2, finds no further swap and returns: the returned pool holds the same member
  set twice.
\<close>

theorem rank_swapping_creates_duplicate:
  "weigh_random_sets exact bug_rows bug_freq = Inr bug_pool \<and>
   distinct (map (random_set_only \<circ> snd) bug_pool) \<and>
   frequency_based_rank_swapping 2 exact bug_pool = Some (Inr bug_swapped) \<and>
   random_set_only (snd (bug_swapped ! 0)) = random_set_only (snd (bug_swapped ! 2))"
  by code_simp

subsection \<open>The driver\<close>

lemma unpack2_Inr: "unpack2 keys = Inr (a, b) \<longleftrightarrow> keys = [a, b]"
  by (auto simp: unpack2_def split: list.splits)

lemma generate_random_q_gram_sets_swapping:
  "generate_random_q_gram_sets fuel r init_random_sets frequent_q_grams True \<noteq> Some (Inr refs)"
  by (auto simp: generate_random_q_gram_sets_def split: sum.splits option.splits)

lemma extract_records_keys:
  "extract_records m store n = Inr out \<Longrightarrow> map fst out = map fst store"
proof (induction store arbitrary: out)
  case Nil
  then show ?case by simp
next
  case (Cons p store)
  obtain rec_id rec_obj where p: "p = (rec_id, rec_obj)" by (cases p)
  from Cons.prems p obtain sg rest where
    "extract_records m store n = Inr rest"
    "out = (rec_id, \<lparr>record_q_gram = record_q_gram rec_obj, signature = sg\<rparr>) # rest"
    by (auto simp: Let_def split: if_splits sum.splits)
  then show ?case using Cons.IH p by simp
qed

lemma main_num_1_bits_keys:
  assumes "main_num_1_bits r data_dic1 data_dic2 refs initial_ls = Inr (n, s1, s2)"
  shows "map fst s1 = map fst data_dic1" "map fst s2 = map fst data_dic2"
proof -
  obtain m1 m2 where g: "gen_init_int_signature r data_dic1 refs initial_ls = Inr (m1, s1)"
    "gen_init_int_signature r data_dic2 refs initial_ls = Inr (m2, s2)"
    using assms by (auto simp: main_num_1_bits_def split: sum.splits)
  show "map fst s1 = map fst data_dic1"
    using init_signatures_lengths(1) gen_init_int_signature_Inr[OF g(1)] by blast
  show "map fst s2 = map fst data_dic2"
    using init_signatures_lengths(1) gen_init_int_signature_Inr[OF g(2)] by blast
qed


lemma main_completes_two_records:
  assumes run: "main r (Some generate) data_dic1 headers1 data_dic2 headers2 k init_random_sets
                  frequent_q_grams must_swap = Some (Inr ((p1, z1), (p2, z2)))"
  shows "map fst data_dic1 = [p1, z1] \<and> map fst data_dic2 = [p2, z2] \<and>
         (\<exists>refs. generate init_random_sets frequent_q_grams must_swap = Some (Inr refs))"
proof -
  have h: "headers1 = headers2" using run by (auto simp: main_def split: if_splits)
  obtain min_len where len: "calculate_average_len
      (map (record_q_gram \<circ> snd) data_dic1 @ map (record_q_gram \<circ> snd) data_dic2) = Inr min_len"
    using run h
    by (cases "calculate_average_len
      (map (record_q_gram \<circ> snd) data_dic1 @ map (record_q_gram \<circ> snd) data_dic2)")
       (simp_all add: main_def)
  let ?gen = "generate init_random_sets frequent_q_grams must_swap"
  obtain refs where gen: "?gen = Some (Inr refs)"
    using run h len by (auto simp: main_def split: option.splits sum.splits)
  let ?ls = "(k + 1) * int min_len"
  obtain n s1 s2 where bits: "main_num_1_bits r data_dic1 data_dic2 refs ?ls = Inr (n, s1, s2)"
    using run h len gen
    by (cases "main_num_1_bits r data_dic1 data_dic2 refs ?ls")
       (auto simp: main_def Let_def)
  obtain e1 where e1: "extract_signatures refs s1 n = Inr e1"
    using run h len gen bits
    by (cases "extract_signatures refs s1 n") (simp_all add: main_def Let_def)
  obtain a1 b1 where u1: "unpack2 (map fst e1) = Inr (a1, b1)"
    using run h len gen bits e1
    by (cases "unpack2 (map fst e1)") (auto simp: main_def Let_def)
  obtain e2 where e2: "extract_signatures refs s2 n = Inr e2"
    using run h len gen bits e1 u1
    by (cases "extract_signatures refs s2 n") (simp_all add: main_def Let_def)
  obtain a2 b2 where u2: "unpack2 (map fst e2) = Inr (a2, b2)"
    using run h len gen bits e1 u1 e2
    by (cases "unpack2 (map fst e2)") (auto simp: main_def Let_def)
  have res: "a1 = p1" "b1 = z1" "a2 = p2" "b2 = z2"
    using run h len gen bits e1 u1 e2 u2 by (simp_all add: main_def Let_def)
  have "map fst e1 = map fst data_dic1"
    using extract_records_keys[of "length refs" s1 n e1] e1 main_num_1_bits_keys(1)[OF bits]
    by (simp add: extract_signatures_def)
  then have k1: "map fst data_dic1 = [p1, z1]" using u1 res by (simp add: unpack2_Inr)
  have "map fst e2 = map fst data_dic2"
    using extract_records_keys[of "length refs" s2 n e2] e2 main_num_1_bits_keys(2)[OF bits]
    by (simp add: extract_signatures_def)
  then have k2: "map fst data_dic2 = [p2, z2]" using u2 res by (simp add: unpack2_Inr)
  show ?thesis using k1 k2 gen by blast
qed

text \<open>
  Claim C10, as amended. For every input, a run of the driver as the repository delivers
  it does not complete normally: the import of line 24 finds no module
  \<^verbatim>\<open>random_qgram_generator\<close> and raises, before reference-set generation and signature
  extraction are reached. Apart from that, \<^verbatim>\<open>frequency_based_rank_swapping\<close> returns a
  single dictionary, which its caller unpacks into two variables: with swapping enabled
  \<^verbatim>\<open>generate_random_q_gram_sets\<close> of ref\_set\_processor.py never returns normally,
  whatever the fuel, and neither does a driver that is given that generator. And
  \<^verbatim>\<open>extract_signatures\<close> returns a single dictionary, which the driver unpacks into two
  variables: whatever module the import is given, a run completes normally only if each
  of the two data sets has exactly two records, whose identifiers are what lines 291
  and 294 bind.
\<close>

theorem main_never_completes_as_delivered:
  "main r None data_dic1 headers1 data_dic2 headers2 k init_random_sets frequent_q_grams
     must_swap = Some (Inl ModuleNotFoundError) \<and>
   (\<forall>fuel refs. generate_random_q_gram_sets fuel r init_random_sets frequent_q_grams True
                   \<noteq> Some (Inr refs)) \<and>
   (\<forall>fuel res. main r (Some (generate_random_q_gram_sets fuel r)) data_dic1 headers1 data_dic2
                   headers2 k init_random_sets frequent_q_grams True \<noteq> Some (Inr res)) \<and>
   (\<forall>generate p1 z1 p2 z2.
      main r (Some generate) data_dic1 headers1 data_dic2 headers2 k init_random_sets
        frequent_q_grams must_swap = Some (Inr ((p1, z1), (p2, z2))) \<longrightarrow>
      map fst data_dic1 = [p1, z1] \<and> map fst data_dic2 = [p2, z2])"
proof -
  have 1: "main r None data_dic1 headers1 data_dic2 headers2 k init_random_sets
      frequent_q_grams must_swap = Some (Inl ModuleNotFoundError)"
    by (simp add: main_def)
  have 2: "generate_random_q_gram_sets fuel r init_random_sets frequent_q_grams True
             \<noteq> Some (Inr refs)" for fuel refs
    by (rule generate_random_q_gram_sets_swapping)
  have 3: "main r (Some (generate_random_q_gram_sets fuel r)) data_dic1 headers1 data_dic2
             headers2 k init_random_sets frequent_q_grams True \<noteq> Some (Inr res)" for fuel res
  proof
    assume a: "main r (Some (generate_random_q_gram_sets fuel r)) data_dic1 headers1 data_dic2
             headers2 k init_random_sets frequent_q_grams True = Some (Inr res)"
    obtain p1 z1 p2 z2 where "res = ((p1, z1), (p2, z2))" by (metis surj_pair)
    from main_completes_two_records[OF a[unfolded this]] 2 show False by blast
  qed
  have 4: "map fst data_dic1 = [p1, z1] \<and> map fst data_dic2 = [p2, z2]"
    if "main r (Some generate) data_dic1 headers1 data_dic2 headers2 k init_random_sets
        frequent_q_grams must_swap = Some (Inr ((p1, z1), (p2, z2)))" for generate p1 z1 p2 z2
    using main_completes_two_records[OF that] by blast
  show ?thesis using 1 2 3 4 by blast
qed

text \<open>
  A run on two data sets of two records each, without swapping, were the import given
  the generator of ref\_set\_processor.py.
\<close>

lemma two_records_run:
  "main exact (Some (generate_random_q_gram_sets 0 exact)) two_records1 [''name'']
     two_records2 [''name''] 1 [(0, [''aa'', ''bb'']), (1, [''cc'', ''dd''])] Map.empty False =
   Some (Inr ((''r1'', ''r2''), (''s1'', ''s2'')))"
  by code_simp

text \<open>
  Claim C10 as the specification states it fails on where a run raises: on this input,
  with swapping enabled and with swapping disabled, the run raises at the import of line
  24, so it raises neither during reference-set generation nor at the signature
  extraction step, which it does not reach.
\<close>

theorem main_raises_at_import_counterexample:
  "main exact None two_records1 [''name''] two_records2 [''name''] 1
     [(0, [''aa'', ''bb'']), (1, [''cc'', ''dd''])] Map.empty True =
     Some (Inl ModuleNotFoundError) \<and>
   main exact None two_records1 [''name''] two_records2 [''name''] 1
     [(0, [''aa'', ''bb'']), (1, [''cc'', ''dd''])] Map.empty False =
     Some (Inl ModuleNotFoundError)"
  by (simp add: main_def)

text \<open>
  Claim C10 as amended, at that input; the last part of the theorem is used at the run
  above, which its hypothesis admits.
\<close>

theorem main_never_completes_as_delivered_witness:
  "main exact None two_records1 [''name''] two_records2 [''name''] 1
     [(0, [''aa'', ''bb'']), (1, [''cc'', ''dd''])] Map.empty False =
     Some (Inl ModuleNotFoundError) \<and>
   main exact (Some (generate_random_q_gram_sets 0 exact)) two_records1 [''name'']
     two_records2 [''name''] 1 [(0, [''aa'', ''bb'']), (1, [''cc'', ''dd''])] Map.empty False =
     Some (Inr ((''r1'', ''r2''), (''s1'', ''s2''))) \<and>
   map fst two_records1 = [''r1'', ''r2''] \<and> map fst two_records2 = [''s1'', ''s2'']"
  using main_never_completes_as_delivered[of exact two_records1 "[''name'']" two_records2
      "[''name'']" 1 "[(0, [''aa'', ''bb'']), (1, [''cc'', ''dd''])]" Map.empty False]
    two_records_run
  by blast

subsection \<open>The reference-set generator: what a returned pool satisfies\<close>

lemma draw_props:
  "n \<le> length population \<Longrightarrow>
     length (draw rng pos population n) = n \<and>
     set (draw rng pos population n) \<subseteq> set population \<and>
     (distinct population \<longrightarrow> distinct (draw rng pos population n))"
proof (induction n arbitrary: pos population)
  case 0
  then show ?case by simp
next
  case (Suc n)
  let ?i = "rng pos mod length population"
  let ?rest = "take ?i population @ drop (Suc ?i) population"
  have ne: "0 < length population" using Suc.prems by (cases population) simp_all
  then have i: "?i < length population" by simp
  have len: "length ?rest = length population - 1" using i by simp
  have sub: "set ?rest \<subseteq> set population"
    by (auto dest: in_set_takeD in_set_dropD)
  have dis: "distinct ?rest \<and> population ! ?i \<notin> set ?rest" if "distinct population"
  proof -
    have "population = take ?i population @ population ! ?i # drop (Suc ?i) population"
      using i by (rule id_take_nth_drop)
    then have "distinct (take ?i population @ population ! ?i # drop (Suc ?i) population)"
      using that by simp
    then show ?thesis by auto
  qed
  have "n \<le> length ?rest" using Suc.prems len by simp
  from Suc.IH[OF this, of "Suc pos"]
  have ih: "length (draw rng (Suc pos) ?rest n) = n"
    "set (draw rng (Suc pos) ?rest n) \<subseteq> set ?rest"
    "distinct ?rest \<longrightarrow> distinct (draw rng (Suc pos) ?rest n)"
    by simp_all
  have eq: "draw rng pos population (Suc n) = population ! ?i # draw rng (Suc pos) ?rest n"
    by (simp add: Let_def)
  have "population ! ?i \<in> set population" using i by simp
  then show ?case unfolding eq using ih sub dis by auto
qed

lemma random_sample_props:
  assumes "random_sample rng pos population k = Inr (xs, pos')"
  shows "int (length xs) = k" "set xs \<subseteq> set population"
    "distinct population \<Longrightarrow> distinct xs"
proof -
  have k: "0 \<le> k" "k \<le> int (length population)" and xs: "xs = draw rng pos population (nat k)"
    using assms by (auto simp: random_sample_def split: if_splits)
  have n: "nat k \<le> length population" using k by simp
  note d = draw_props[OF n, of rng pos]
  show "int (length xs) = k" using d k xs by simp
  show "set xs \<subseteq> set population" using d xs by simp
  show "distinct xs" if "distinct population" using d xs that by simp
qed

lemma move_inv:
  fixes key :: int
  assumes K1: "\<forall>c b. m c = Some b \<longrightarrow> distinct b \<and> (\<forall>h\<in>set b. h \<in> A \<and> f h = c)"
    and K2: "\<forall>h\<in>A. \<exists>c b. m c = Some b \<and> h \<in> set b"
    and key: "m key = Some bucket" and g: "g \<in> set bucket"
    and md: "md = (if remove1 g bucket = [] then m(key := None) else m(key \<mapsto> remove1 g bucket))"
    and nb: "nb = (case md (key + 1) of None \<Rightarrow> [] | Some b \<Rightarrow> b)"
    and m': "m' = md(key + 1 \<mapsto> nb @ [g])"
  shows "\<forall>c b. m' c = Some b \<longrightarrow> distinct b \<and> (\<forall>h\<in>set b. h \<in> A \<and> (f(g := key + 1)) h = c)"
    and "\<forall>h\<in>A. \<exists>c b. m' c = Some b \<and> h \<in> set b"
proof -
  have db: "distinct bucket" and fb: "\<And>h. h \<in> set bucket \<Longrightarrow> h \<in> A \<and> f h = key"
    using K1 key by auto
  have fg: "f g = key" "g \<in> A" using fb g by auto
  have only: "c = key" if "m c = Some b" "g \<in> set b" for c b
    using K1 that fg by auto
  have set_rm: "set (remove1 g bucket) = set bucket - {g}" using db by simp
  have next_old: "md (key + 1) = m (key + 1)" by (simp add: md)
  have nb_props: "distinct nb" "g \<notin> set nb" "\<And>h. h \<in> set nb \<Longrightarrow> h \<in> A \<and> f h = key + 1"
  proof -
    show "distinct nb" using K1 by (auto simp: nb next_old split: option.splits)
    show "g \<notin> set nb"
    proof
      assume in_nb: "g \<in> set nb"
      then have "m (key + 1) = Some nb"
        by (cases "m (key + 1)") (simp_all add: nb next_old)
      from only[OF this in_nb] show False by simp
    qed
    show "h \<in> A \<and> f h = key + 1" if in_nb: "h \<in> set nb" for h
    proof -
      have "m (key + 1) = Some nb"
        using in_nb by (cases "m (key + 1)") (simp_all add: nb next_old)
      then show ?thesis using K1 in_nb by blast
    qed
  qed
  show "\<forall>c b. m' c = Some b \<longrightarrow> distinct b \<and> (\<forall>h\<in>set b. h \<in> A \<and> (f(g := key + 1)) h = c)"
  proof (intro allI impI)
    fix c b assume cb: "m' c = Some b"
    consider "c = key + 1" | "c = key" "c \<noteq> key + 1" | "c \<noteq> key" "c \<noteq> key + 1" by blast
    then show "distinct b \<and> (\<forall>h\<in>set b. h \<in> A \<and> (f(g := key + 1)) h = c)"
    proof cases
      case 1
      then have "b = nb @ [g]" using cb by (simp add: m')
      then show ?thesis using nb_props fg 1 by auto
    next
      case 2
      then have "md key = Some b" using cb by (simp add: m')
      then have "b = remove1 g bucket" by (auto simp: md split: if_splits)
      then show ?thesis using db fb set_rm 2 by auto
    next
      case 3
      then have "m c = Some b" using cb by (auto simp: m' md split: if_splits)
      moreover have "g \<notin> set b" using only[OF \<open>m c = Some b\<close>] 3 by auto
      ultimately show ?thesis using K1 by auto
    qed
  qed
  show "\<forall>h\<in>A. \<exists>c b. m' c = Some b \<and> h \<in> set b"
  proof
    fix h assume h: "h \<in> A"
    show "\<exists>c b. m' c = Some b \<and> h \<in> set b"
    proof (cases "h = g")
      case True
      then show ?thesis by (auto simp: m')
    next
      case False
      obtain c b where cb: "m c = Some b" "h \<in> set b" using K2 h by blast
      consider "c = key + 1" | "c = key" | "c \<noteq> key" "c \<noteq> key + 1" by blast
      then show ?thesis
      proof cases
        case 1
        then have "h \<in> set nb" using cb by (simp add: nb next_old)
        then show ?thesis by (auto simp: m')
      next
        case 2
        then have b: "b = bucket" using cb key by simp
        then have hin: "h \<in> set (remove1 g bucket)" using cb False set_rm by simp
        then have "md key = Some (remove1 g bucket)" by (auto simp: md)
        then have "m' key = Some (remove1 g bucket)" by (simp add: m')
        then show ?thesis using hin by blast
      next
        case 3
        then have "m' c = Some b" using cb by (simp add: m' md)
        then show ?thesis using cb by blast
      qed
    qed
  qed
qed

lemma update_q_gram_counter_inv:
  assumes "buckets_inv A f cnt" "distinct xs" "\<forall>g\<in>set xs. g \<in> A \<and> f g = key"
  shows "\<exists>cnt'. update_q_gram_counter cnt xs key = Inr cnt' \<and>
           buckets_inv A (\<lambda>g. if g \<in> set xs then f g + 1 else f g) cnt'"
  using assms
proof (induction xs arbitrary: cnt f)
  case Nil
  then show ?case by simp
next
  case (Cons x xs)
  let ?m = "map_of cnt"
  have d: "distinct (map fst cnt)"
    and K1: "\<forall>c b. ?m c = Some b \<longrightarrow> distinct b \<and> (\<forall>h\<in>set b. h \<in> A \<and> f h = c)"
    and K2: "\<forall>h\<in>A. \<exists>c b. ?m c = Some b \<and> h \<in> set b"
    using Cons.prems(1) unfolding buckets_inv_def by blast+
  have x: "x \<in> A" "f x = key" using Cons.prems(3) by simp_all
  obtain c bucket where cb: "?m c = Some bucket" "x \<in> set bucket" using K2 x(1) by blast
  have "c = key" using K1 cb x(2) by auto
  then have key: "?m key = Some bucket" using cb by simp
  define removed where "removed = AList.update key (remove1 x bucket) cnt"
  define deleted where "deleted = (if length (remove1 x bucket) = 0
                                   then AList.delete key removed else removed)"
  define created where "created = (if map_of deleted (key + 1) = None
                                   then AList.update (key + 1) [] deleted else deleted)"
  define md where "md = (if remove1 x bucket = [] then ?m(key := None)
                         else ?m(key \<mapsto> remove1 x bucket))"
  define nb where "nb = (case md (key + 1) of None \<Rightarrow> [] | Some b \<Rightarrow> b)"
  define m' where "m' = md(key + 1 \<mapsto> nb @ [x])"
  have md_eq: "map_of deleted = md"
    by (auto simp: md_def deleted_def removed_def update_conv' delete_conv')
  have dd: "distinct (map fst deleted)"
    using d by (simp add: deleted_def removed_def distinct_update distinct_delete)
  have created_map: "map_of created = md(key + 1 \<mapsto> nb)"
  proof (cases "md (key + 1)")
    case None
    then show ?thesis by (simp add: created_def md_eq nb_def update_conv')
  next
    case (Some b)
    then have "md(key + 1 \<mapsto> nb) = md" by (auto simp: nb_def)
    then show ?thesis using Some by (simp add: created_def md_eq)
  qed
  then have created_next: "map_of created (key + 1) = Some nb" by simp
  have dc: "distinct (map fst created)" using dd by (simp add: created_def distinct_update)
  define final where "final = AList.update (key + 1) (nb @ [x]) created"
  have final_map: "map_of final = m'"
    by (simp add: final_def m'_def update_conv' created_map)
  have df: "distinct (map fst final)" using dc by (simp add: final_def distinct_update)
  note mv = move_inv[OF K1 K2 key cb(2) md_def nb_def m'_def]
  have inv1: "buckets_inv A (f(x := key + 1)) final"
    unfolding buckets_inv_def final_map using mv df by blast
  have step: "update_q_gram_counter cnt (x # xs) key = update_q_gram_counter final xs key"
  proof -
    have "update_q_gram_counter cnt (x # xs) key =
        (case map_of created (key + 1) of
           None \<Rightarrow> Inl KeyError
         | Some next_bucket \<Rightarrow>
             update_q_gram_counter (AList.update (key + 1) (next_bucket @ [x]) created) xs key)"
      unfolding update_q_gram_counter.simps created_def deleted_def removed_def
      by (simp only: key option.case cb(2) not_True_eq_False not_not if_False Let_def)
    then show ?thesis by (simp only: created_next option.case final_def)
  qed
  have "\<forall>g\<in>set xs. g \<in> A \<and> (f(x := key + 1)) g = key"
    using Cons.prems(2,3) by auto
  from Cons.IH[OF inv1 _ this] Cons.prems(2)
  obtain cnt' where cnt': "update_q_gram_counter final xs key = Inr cnt'"
    "buckets_inv A (\<lambda>g. if g \<in> set xs then (f(x := key + 1)) g + 1 else (f(x := key + 1)) g) cnt'"
    by auto
  have "(\<lambda>g. if g \<in> set xs then (f(x := key + 1)) g + 1 else (f(x := key + 1)) g) =
        (\<lambda>g. if g \<in> set (x # xs) then f g + 1 else f g)"
    using Cons.prems(2) x(2) by (auto simp: fun_eq_iff)
  then show ?case using cnt' step by simp
qed

lemma placed_append:
  "placed (sets @ [fset_of_list xs]) g = (if g \<in> set xs then placed sets g + 1 else placed sets g)"
  by (simp add: placed_def fset_of_list.rep_eq)

lemma gen_inv_rng_pos [simp]: "gen_inv A r (st\<lparr>rng_pos := pos\<rparr>) = gen_inv A r st"
  by (simp add: gen_inv_def)

lemma accept_both_inv:
  assumes inv: "gen_inv A r st"
    and xs: "distinct xs" "\<forall>g\<in>set xs. g \<in> A \<and> placed (ref_sets st) g = ck"
    and ys: "distinct ys" "\<forall>g\<in>set ys. g \<in> A \<and> placed (ref_sets st) g = ck + 1"
    and res: "accept_both st r ck xs ys pos = Inr (b, st')"
  shows "gen_inv A r st' \<and> (\<not> b \<longrightarrow> q_gram_counter st' = q_gram_counter st)"
proof (cases "fset_of_list (xs @ ys) \<in> set (ref_sets st)")
  case True
  then have "st' = st\<lparr>rng_pos := pos\<rparr>" "\<not> b"
    using res by (simp_all add: accept_both_def Let_def)
  then show ?thesis using inv by simp
next
  case False
  let ?f = "placed (ref_sets st)"
  let ?f1 = "\<lambda>g. if g \<in> set xs then ?f g + 1 else ?f g"
  let ?f2 = "\<lambda>g. if g \<in> set ys then ?f1 g + 1 else ?f1 g"
  let ?qs = "fset_of_list (xs @ ys)"
  have b0: "buckets_inv A ?f (q_gram_counter st)" and d0: "distinct (ref_sets st)"
    and c0: "\<forall>s\<in>set (ref_sets st). int (fcard s) = r"
    using inv by (simp_all add: gen_inv_def)
  obtain c1 where c1: "update_q_gram_counter (q_gram_counter st) xs ck = Inr c1"
    "buckets_inv A ?f1 c1"
    using update_q_gram_counter_inv[OF b0 xs] by blast
  have disj: "g \<notin> set xs" if "g \<in> set ys" for g
    using xs(2) ys(2) that by fastforce
  have "\<forall>g\<in>set ys. g \<in> A \<and> ?f1 g = ck + 1"
    using ys(2) disj by simp
  from update_q_gram_counter_inv[OF c1(2) ys(1) this]
  obtain c2 where c2: "update_q_gram_counter c1 ys (ck + 1) = Inr c2" "buckets_inv A ?f2 c2"
    by blast
  have card: "int (fcard ?qs) = r"
    using res False c1(1) c2(1)
    by (cases "int (fcard ?qs) = r") (simp_all add: accept_both_def Let_def)
  have st': "st' = \<lparr>ref_sets = ref_sets st @ [?qs], q_gram_counter = c2, rng_pos = pos\<rparr>" and b: b
    using res False c1(1) c2(1) card by (simp_all add: accept_both_def Let_def)
  have "?f2 g = placed (ref_sets st @ [?qs]) g" for g
    unfolding placed_append using disj[of g] by auto
  then have "?f2 = placed (ref_sets st @ [?qs])" by (rule ext)
  then have "buckets_inv A (placed (ref_sets st')) (q_gram_counter st')"
    using c2(2) st' by simp
  moreover have "distinct (ref_sets st')" using d0 False st' by simp
  moreover have "\<forall>s\<in>set (ref_sets st'). int (fcard s) = r" using c0 card st' by simp
  ultimately show ?thesis using b by (simp add: gen_inv_def)
qed

lemma accept_one_inv:
  assumes inv: "gen_inv A r st"
    and xs: "distinct xs" "\<forall>g\<in>set xs. g \<in> A \<and> placed (ref_sets st) g = ck"
    and res: "accept_one st r ck xs pos = Inr (b, st')"
  shows "gen_inv A r st' \<and> (\<not> b \<longrightarrow> q_gram_counter st' = q_gram_counter st)"
proof (cases "fset_of_list xs \<in> set (ref_sets st)")
  case True
  then have "st' = st\<lparr>rng_pos := pos\<rparr>" "\<not> b"
    using res by (simp_all add: accept_one_def Let_def)
  then show ?thesis using inv by simp
next
  case False
  let ?f = "placed (ref_sets st)"
  let ?f1 = "\<lambda>g. if g \<in> set xs then ?f g + 1 else ?f g"
  let ?qs = "fset_of_list xs"
  have b0: "buckets_inv A ?f (q_gram_counter st)" and d0: "distinct (ref_sets st)"
    and c0: "\<forall>s\<in>set (ref_sets st). int (fcard s) = r"
    using inv by (simp_all add: gen_inv_def)
  obtain c1 where c1: "update_q_gram_counter (q_gram_counter st) xs ck = Inr c1"
    "buckets_inv A ?f1 c1"
    using update_q_gram_counter_inv[OF b0 xs] by blast
  have card: "int (fcard ?qs) = r"
    using res False c1(1)
    by (cases "int (fcard ?qs) = r") (simp_all add: accept_one_def Let_def)
  have st': "st' = \<lparr>ref_sets = ref_sets st @ [?qs], q_gram_counter = c1, rng_pos = pos\<rparr>" and b: b
    using res False c1(1) card by (simp_all add: accept_one_def Let_def)
  have "?f1 = placed (ref_sets st @ [?qs])"
    by (auto simp: fun_eq_iff placed_append)
  then have "buckets_inv A (placed (ref_sets st')) (q_gram_counter st')"
    using c1(2) st' by simp
  moreover have "distinct (ref_sets st')" using d0 False st' by simp
  moreover have "\<forall>s\<in>set (ref_sets st'). int (fcard s) = r" using c0 card st' by simp
  ultimately show ?thesis using b by (simp add: gen_inv_def)
qed

lemma bucket_members:
  assumes "buckets_inv A f cnt" "map_of cnt c = Some b"
  shows "distinct b" "\<forall>g\<in>set b. g \<in> A \<and> f g = c"
  using assms unfolding buckets_inv_def by blast+

lemma sample_of_bucket:
  assumes "buckets_inv A f cnt" "map_of cnt c = Some b"
    "random_sample rng pos b n = Inr (xs, pos')"
  shows "distinct xs" "\<forall>g\<in>set xs. g \<in> A \<and> f g = c"
proof -
  note bm = bucket_members[OF assms(1,2)]
  note rs = random_sample_props[OF assms(3)]
  show "distinct xs" using rs(3) bm(1) by simp
  show "\<forall>g\<in>set xs. g \<in> A \<and> f g = c" using rs(2) bm(2) by blast
qed

lemma attempt_inv:
  assumes inv: "gen_inv A r st"
    and sm: "map_of (q_gram_counter st) ck = Some smallest"
    and res: "attempt rng r ck smallest tc st = Inr (b, st')"
  shows "gen_inv A r st' \<and> (\<not> b \<longrightarrow> q_gram_counter st' = q_gram_counter st)"
proof -
  let ?f = "placed (ref_sets st)"
  have b0: "buckets_inv A ?f (q_gram_counter st)" using inv by (simp add: gen_inv_def)
  note small = bucket_members[OF b0 sm]
  show ?thesis
  proof (cases "r \<le> int (length smallest)")
    case ge: True
    show ?thesis
    proof (cases "int (length smallest) = r \<and> 1 < tc")
      case variety: True
      obtain one pos1 where one: "random_sample rng (rng_pos st) smallest 1 = Inr (one, pos1)"
        using res ge variety
        by (cases "random_sample rng (rng_pos st) smallest 1") (auto simp: attempt_def)
      note s1 = sample_of_bucket[OF b0 sm one]
      show ?thesis
      proof (cases "r - 1 \<noteq> 0")
        case False
        then have "st' = st\<lparr>rng_pos := pos1\<rparr>" "\<not> b"
          using res ge variety one by (simp_all add: attempt_def)
        then show ?thesis using inv by simp
      next
        case r1: True
        obtain nb where nb: "map_of (q_gram_counter st) (ck + 1) = Some nb"
          using res ge variety one r1
          by (cases "map_of (q_gram_counter st) (ck + 1)") (simp_all add: attempt_def)
        show ?thesis
        proof (cases "r - 1 \<le> int (length nb)")
          case False
          then have "st' = st\<lparr>rng_pos := pos1\<rparr>" "\<not> b"
            using res ge variety one r1 nb by (simp_all add: attempt_def)
          then show ?thesis using inv by simp
        next
          case enough: True
          obtain ys pos2 where ys: "random_sample rng pos1 nb (r - 1) = Inr (ys, pos2)"
            using res ge variety one r1 nb enough
            by (cases "random_sample rng pos1 nb (r - 1)") (auto simp: attempt_def)
          note s2 = sample_of_bucket[OF b0 nb ys]
          have "accept_both st r ck one ys pos2 = Inr (b, st')"
            using res ge variety one r1 nb enough ys by (simp add: attempt_def)
          from accept_both_inv[OF inv s1 s2 this] show ?thesis .
        qed
      qed
    next
      case plain: False
      obtain xs pos1 where xs: "random_sample rng (rng_pos st) smallest r = Inr (xs, pos1)"
        using res ge plain
        by (cases "random_sample rng (rng_pos st) smallest r") (auto simp: attempt_def)
      note s1 = sample_of_bucket[OF b0 sm xs]
      have "accept_one st r ck xs pos1 = Inr (b, st')"
        using res ge plain xs by (auto simp: attempt_def)
      from accept_one_inv[OF inv s1 this] show ?thesis .
    qed
  next
    case short: False
    let ?slack = "r - int (length smallest)"
    obtain nb where nb: "map_of (q_gram_counter st) (ck + 1) = Some nb"
      using res short
      by (cases "map_of (q_gram_counter st) (ck + 1)") (simp_all add: attempt_def Let_def)
    show ?thesis
    proof (cases "?slack \<le> int (length nb)")
      case False
      then have "st' = st" "\<not> b"
        using res short nb by (simp_all add: attempt_def Let_def)
      then show ?thesis using inv by simp
    next
      case enough: True
      obtain ys pos1 where ys: "random_sample rng (rng_pos st) nb ?slack = Inr (ys, pos1)"
        using res short nb enough
        by (cases "random_sample rng (rng_pos st) nb ?slack") (auto simp: attempt_def Let_def)
      note s2 = sample_of_bucket[OF b0 nb ys]
      have "accept_both st r ck smallest ys pos1 = Inr (b, st')"
        using res short nb enough ys by (simp add: attempt_def Let_def)
      from accept_both_inv[OF inv small s2 this] show ?thesis .
    qed
  qed
qed

lemma generate_one_inv:
  assumes "gen_inv A r st" "map_of (q_gram_counter st) ck = Some smallest"
    "generate_one fuel rng r ck smallest tc st = Some (Inr st')"
  shows "gen_inv A r st'"
  using assms
proof (induction fuel arbitrary: tc st)
  case 0
  then show ?case by simp
next
  case (Suc fuel)
  obtain b st1 where a: "attempt rng r ck smallest (tc + 1) st = Inr (b, st1)"
    using Suc.prems(3)
    by (cases "attempt rng r ck smallest (tc + 1) st") auto
  note ai = attempt_inv[OF Suc.prems(1,2) a]
  show ?case
  proof (cases b)
    case True
    then have "st' = st1" using Suc.prems(3) a by simp
    then show ?thesis using ai by simp
  next
    case False
    then have "generate_one fuel rng r ck smallest (tc + 1) st1 = Some (Inr st')"
      using Suc.prems(3) a by simp
    moreover have "map_of (q_gram_counter st1) ck = Some smallest"
      using ai False Suc.prems(2) by simp
    ultimately show ?thesis using Suc.IH ai by blast
  qed
qed

lemma generate_loop_inv:
  assumes "gen_inv A r st" "generate_loop fuel rng r k st = Some (Inr st')"
  shows "gen_inv A r st' \<and> check_q_gram_availability (q_gram_counter st') k"
  using assms
proof (induction fuel arbitrary: st)
  case 0
  then show ?case by simp
next
  case (Suc fuel)
  show ?case
  proof (cases "check_q_gram_availability (q_gram_counter st) k")
    case True
    then have "st' = st" using Suc.prems(2) by simp
    then show ?thesis using True Suc.prems(1) by simp
  next
    case False
    let ?ck = "min_list (map fst (q_gram_counter st))"
    have ne: "q_gram_counter st \<noteq> []" using Suc.prems(2) False by (auto split: if_splits)
    obtain smallest where sm: "map_of (q_gram_counter st) ?ck = Some smallest"
      using Suc.prems(2) False ne
      by (cases "map_of (q_gram_counter st) ?ck") (simp_all add: Let_def)
    obtain st1 where one: "generate_one fuel rng r ?ck smallest 0 st = Some (Inr st1)"
      and rest: "generate_loop fuel rng r k st1 = Some (Inr st')"
      using Suc.prems(2) False ne sm
      by (auto simp: Let_def split: option.splits sum.splits)
    have "gen_inv A r st1" using generate_one_inv[OF Suc.prems(1) sm one] .
    from Suc.IH[OF this rest] show ?thesis .
  qed
qed

lemma initial_counter_inv:
  assumes "distinct q_c" "0 \<le> k"
  shows "buckets_inv (set q_c) (placed []) (initial_counter q_c k)"
proof -
  have keys: "map fst (initial_counter q_c k) = [0..k]"
    by (simp add: initial_counter_def comp_def)
  have look: "map_of (initial_counter q_c k) c = Some b \<Longrightarrow> b = (if c = 0 then q_c else [])" for c b
    by (auto simp: initial_counter_def map_of_map_restrict restrict_map_def split: if_splits)
  have zero: "map_of (initial_counter q_c k) 0 = Some q_c"
    using assms(2) by (simp add: initial_counter_def map_of_map_restrict)
  have "distinct (map fst (initial_counter q_c k))" by (simp add: keys)
  moreover have "distinct b \<and> (\<forall>g\<in>set b. g \<in> set q_c \<and> placed [] g = c)"
    if "map_of (initial_counter q_c k) c = Some b" for c b
    using look[OF that] assms(1) by (auto simp: placed_def)
  moreover have "\<exists>c b. map_of (initial_counter q_c k) c = Some b \<and> g \<in> set b" if "g \<in> set q_c" for g
    using zero that by blast
  ultimately show ?thesis unfolding buckets_inv_def by blast
qed

lemma covered_when_available:
  assumes b: "buckets_inv A f cnt" and c: "check_q_gram_availability cnt k" and g: "g \<in> A"
  shows "k \<le> f g"
proof -
  obtain c0 b0 where cb: "map_of cnt c0 = Some b0" "g \<in> set b0"
    using b g unfolding buckets_inv_def by blast
  have f: "f g = c0" using b cb unfolding buckets_inv_def by blast
  have "(c0, b0) \<in> set cnt" using cb(1) by (rule map_of_SomeD)
  then have "\<not> (c0 < k \<and> 0 < length b0)"
    using c by (auto simp: check_q_gram_availability_def list_all_iff)
  moreover have "0 < length b0" using cb(2) by (cases b0) auto
  ultimately show ?thesis using f by simp
qed

text \<open>
  Claim C2. For every alphabet (a list of pairwise distinct q-grams), every reference-set
  length, every coverage requirement \<open>k\<close> and every seed (every random stream): if
  \<^verbatim>\<open>ref_set_generator\<close> returns, the returned sets are pairwise distinct, each has
  exactly \<open>r_length\<close> members, and every q-gram of the alphabet belongs to at least \<open>k\<close>
  of them. The bound of \<open>r_length\<close> by the size of the alphabet is not needed.
\<close>

theorem ref_set_generator_contract:
  assumes alphabet: "distinct q_c"
    and returns: "ref_set_generator fuel rng r_length q_c k = Some (Inr sets)"
  shows "distinct sets \<and> (\<forall>s\<in>set sets. int (fcard s) = r_length) \<and>
         (\<forall>q_gram\<in>set q_c. k \<le> placed sets q_gram)"
proof -
  let ?st0 = "\<lparr>ref_sets = [], q_gram_counter = initial_counter q_c k, rng_pos = 0\<rparr>"
  obtain st where st: "generate_loop fuel rng r_length k ?st0 = Some (Inr st)"
    and sets: "sets = ref_sets st"
    using returns by (auto simp: ref_set_generator_def split: option.splits sum.splits)
  show ?thesis
  proof (cases "0 \<le> k")
    case True
    have "gen_inv (set q_c) r_length ?st0"
      using initial_counter_inv[OF alphabet True] by (simp add: gen_inv_def)
    from generate_loop_inv[OF this st]
    have inv: "gen_inv (set q_c) r_length st"
      and av: "check_q_gram_availability (q_gram_counter st) k" by simp_all
    have "k \<le> placed sets g" if "g \<in> set q_c" for g
      using covered_when_available[OF _ av that] inv sets by (simp add: gen_inv_def)
    then show ?thesis using inv sets by (simp add: gen_inv_def)
  next
    case False
    then have "initial_counter q_c k = []" by (simp add: initial_counter_def)
    then have av: "check_q_gram_availability (q_gram_counter ?st0) k"
      by (simp add: check_q_gram_availability_def)
    have "st = ?st0" using st av by (cases fuel) simp_all
    then have "sets = []" using sets by simp
    then show ?thesis using False by (simp add: placed_def)
  qed
qed

subsection \<open>The reference-set generator on concrete alphabets\<close>

text \<open>A run that returns: four q-grams, sets of two, every q-gram in two sets.\<close>

lemma four_q_grams_run:
  "ref_set_generator 6 counting_stream 2 four_q_grams 2 =
     Some (Inr [{|''aa'', ''ba''|}, {|''ab'', ''bb''|}, {|''aa'', ''bb''|}, {|''ba'', ''ab''|}])"
  by code_simp

text \<open>Claim C2 at that run.\<close>

theorem ref_set_generator_contract_witness:
  "\<exists>sets. ref_set_generator 6 counting_stream 2 four_q_grams 2 = Some (Inr sets) \<and>
     distinct sets \<and> (\<forall>s\<in>set sets. int (fcard s) = 2) \<and>
     (\<forall>q_gram\<in>set four_q_grams. 2 \<le> placed sets q_gram)"
proof -
  have d: "distinct four_q_grams" by (simp add: four_q_grams_def)
  show ?thesis
    using ref_set_generator_contract[OF d four_q_grams_run] four_q_grams_run by blast
qed

subsection \<open>The reference-set generator: two q-grams, sets of one, coverage two\<close>

text \<open>
  With the alphabet \<open>{x, y}\<close>, sets of one q-gram and \<open>k = 2\<close>, the generator accepts the
  two singletons in some order; every later candidate is one of them again and is
  rejected, so no amount of fuel suffices.
\<close>

lemma draw_one: "draw rng pos population (Suc 0) = [population ! (rng pos mod length population)]"
  by (simp add: Let_def)

lemma accept_one_duplicate:
  "fset_of_list xs \<in> set (ref_sets st) \<Longrightarrow>
     accept_one st r ck xs pos = Inr (False, st\<lparr>rng_pos := pos\<rparr>)"
  by (simp add: accept_one_def)

lemma attempt_one_of_many:
  assumes "1 < length smallest"
  shows "attempt rng 1 ck smallest tc st =
     accept_one st 1 ck [smallest ! (rng (rng_pos st) mod length smallest)] (rng_pos st + 1)"
  using assms by (cases smallest) (simp_all add: attempt_def random_sample_def draw_one)

lemma rejected_pair:
  assumes "ref_sets st = [{|x|}, {|y|}]"
  shows "attempt rng 1 ck [x, y] tc st = Inr (False, st\<lparr>rng_pos := rng_pos st + 1\<rparr>)"
proof -
  let ?i = "rng (rng_pos st) mod length [x, y]"
  have "?i = 0 \<or> ?i = Suc 0" by (simp only: list.size) arith
  then have "[x, y] ! ?i = x \<or> [x, y] ! ?i = y" by auto
  then have "fset_of_list [[x, y] ! ?i] \<in> set (ref_sets st)"
    using assms by auto
  then have b: "accept_one st 1 ck [[x, y] ! ?i] (rng_pos st + 1) =
          Inr (False, st\<lparr>rng_pos := rng_pos st + 1\<rparr>)"
    by (rule accept_one_duplicate)
  have a: "attempt rng 1 ck [x, y] tc st =
      accept_one st 1 ck [[x, y] ! ?i] (rng_pos st + 1)"
    by (rule attempt_one_of_many) simp
  show ?thesis by (rule trans[OF a b])
qed

lemma stuck_on_pair:
  "ref_sets st = [{|x|}, {|y|}] \<Longrightarrow> generate_one fuel rng 1 ck [x, y] tc st = None"
proof (induction fuel arbitrary: tc st)
  case 0
  then show ?case by simp
next
  case (Suc fuel)
  have "ref_sets (st\<lparr>rng_pos := rng_pos st + 1\<rparr>) = [{|x|}, {|y|}]" using Suc.prems by simp
  from Suc.IH[OF this] show ?case by (simp add: rejected_pair[OF Suc.prems])
qed

lemma loop_stuck_on_pair:
  "generate_loop fuel rng 1 2
     \<lparr>ref_sets = [{|x|}, {|y|}], q_gram_counter = [(1, [x, y]), (2, [])], rng_pos = p\<rparr> = None"
proof (cases fuel)
  case 0
  then show ?thesis by simp
next
  case (Suc f)
  then show ?thesis
    by (simp add: check_q_gram_availability_def stuck_on_pair)
qed

lemma loop_after_first:
  assumes "x \<noteq> y"
  shows "generate_loop fuel rng 1 2
     \<lparr>ref_sets = [{|x|}], q_gram_counter = [(0, [y]), (1, [x]), (2, [])], rng_pos = p\<rparr> = None"
proof (cases fuel)
  case 0
  then show ?thesis by simp
next
  case (Suc f)
  show ?thesis
  proof (cases f)
    case 0
    then show ?thesis using Suc by (simp add: check_q_gram_availability_def)
  next
    case f: (Suc f')
    have a: "attempt rng 1 0 [y] 1
        \<lparr>ref_sets = [{|x|}], q_gram_counter = [(0, [y]), (1, [x]), (2, [])], rng_pos = p\<rparr> =
      Inr (True, \<lparr>ref_sets = [{|x|}, {|y|}], q_gram_counter = [(1, [x, y]), (2, [])],
                  rng_pos = p + 1\<rparr>)"
      using assms
      by (simp add: attempt_def random_sample_def draw_one accept_one_def Let_def fcard_finsert_if)
    show ?thesis using Suc f
      by (simp add: check_q_gram_availability_def a loop_stuck_on_pair)
  qed
qed

lemma loop_from_start:
  assumes "x \<noteq> y"
  shows "generate_loop fuel rng 1 2
     \<lparr>ref_sets = [], q_gram_counter = [(0, [x, y]), (1, []), (2, [])], rng_pos = 0\<rparr> = None"
proof (cases fuel)
  case 0
  then show ?thesis by simp
next
  case (Suc f)
  show ?thesis
  proof (cases f)
    case 0
    then show ?thesis using Suc by (simp add: check_q_gram_availability_def)
  next
    case f: (Suc f')
    let ?st0 = "\<lparr>ref_sets = [], q_gram_counter = [(0, [x, y]), (1, []), (2, [])], rng_pos = 0\<rparr>"
    have "rng 0 mod Suc (Suc 0) = 0 \<or> rng 0 mod Suc (Suc 0) = Suc 0" by arith
    then show ?thesis
    proof
      assume c: "rng 0 mod Suc (Suc 0) = 0"
      have a: "attempt rng 1 0 [x, y] 1 ?st0 =
        Inr (True, \<lparr>ref_sets = [{|x|}], q_gram_counter = [(0, [y]), (1, [x]), (2, [])],
                    rng_pos = 1\<rparr>)"
        using assms c
        by (simp add: attempt_def random_sample_def draw_one accept_one_def Let_def fcard_finsert_if)
      show ?thesis using Suc f
        by (simp add: check_q_gram_availability_def a loop_after_first[OF assms])
    next
      assume c: "rng 0 mod Suc (Suc 0) = Suc 0"
      have a: "attempt rng 1 0 [x, y] 1 ?st0 =
        Inr (True, \<lparr>ref_sets = [{|y|}], q_gram_counter = [(0, [x]), (1, [y]), (2, [])],
                    rng_pos = 1\<rparr>)"
        using assms c
        by (simp add: attempt_def random_sample_def draw_one accept_one_def Let_def fcard_finsert_if)
      have yx: "y \<noteq> x" using assms by simp
      show ?thesis using Suc f
        by (simp add: check_q_gram_availability_def a loop_after_first[OF yx])
    qed
  qed
qed

lemma toy_alphabet_never_returns:
  "ref_set_generator fuel rng 1 [''ab'', ''ba''] 2 = None"
proof -
  have "initial_counter [''ab'', ''ba''] 2 = [(0, [''ab'', ''ba'']), (1, []), (2, [])]"
    by code_simp
  then show ?thesis
    by (simp add: ref_set_generator_def loop_from_start)
qed

subsection \<open>The reference-set generator: the attempt after a rejection\<close>

text \<open>
  Claim C8, as amended. Let the smallest bucket, of key \<open>c\<close>, hold exactly \<open>r_length\<close>
  q-grams (at least one), in an attempt after the first. The generator draws one q-gram
  of that bucket. If \<open>r_length - 1\<close> is not 0 and the bucket of key \<open>c + 1\<close> has at least
  \<open>r_length - 1\<close> q-grams, the candidate is that q-gram with \<open>r_length - 1\<close> q-grams of the
  bucket \<open>c + 1\<close>. Otherwise, that is if \<open>r_length\<close> is 1 or the bucket \<open>c + 1\<close> has too few
  q-grams, the attempt proposes no set: there is no sampling of the full set from the
  bucket \<open>c\<close>, the pool and the buckets stay as they are, and the loop tries again. For
  the alphabet of \<open>ab\<close> and \<open>ba\<close> with \<open>k = 2\<close> and \<open>r_length = 1\<close> the generator returns for
  no seed and no amount of fuel.
\<close>

theorem variety_policy_without_fallback:
  assumes bucket: "map_of (q_gram_counter st) counter_key = Some smallest"
    and full: "int (length smallest) = r_length" and retry: "1 < try_counter"
    and ne: "smallest \<noteq> []"
  shows
   "(\<forall>next_bucket.
       r_length - 1 \<noteq> 0 \<and> map_of (q_gram_counter st) (counter_key + 1) = Some next_bucket \<and>
       r_length - 1 \<le> int (length next_bucket) \<longrightarrow>
       (\<exists>g ys pos. g \<in> set smallest \<and> int (length ys) = r_length - 1 \<and>
          set ys \<subseteq> set next_bucket \<and>
          attempt rng r_length counter_key smallest try_counter st =
            accept_both st r_length counter_key [g] ys pos)) \<and>
    (\<forall>next_bucket.
       r_length - 1 = 0 \<or>
       (map_of (q_gram_counter st) (counter_key + 1) = Some next_bucket \<and>
        int (length next_bucket) < r_length - 1) \<longrightarrow>
       attempt rng r_length counter_key smallest try_counter st =
         Inr (False, st\<lparr>rng_pos := rng_pos st + 1\<rparr>)) \<and>
    (\<forall>fuel rng'. ref_set_generator fuel rng' 1 [''ab'', ''ba''] 2 = None)"
proof -
  let ?i = "rng (rng_pos st) mod length smallest"
  let ?g = "smallest ! ?i"
  have len: "0 < length smallest" using ne by simp
  then have g: "?g \<in> set smallest" by simp
  have one: "random_sample rng (rng_pos st) smallest 1 = Inr ([?g], rng_pos st + 1)"
    using len by (simp add: random_sample_def Let_def)
  have start: "attempt rng r_length counter_key smallest try_counter st =
      (if r_length - 1 \<noteq> 0 then
         (case map_of (q_gram_counter st) (counter_key + 1) of
            None \<Rightarrow> Inl KeyError
          | Some q_grams_in_next_key \<Rightarrow>
              if r_length - 1 \<le> int (length q_grams_in_next_key) then
                (case random_sample rng (rng_pos st + 1) q_grams_in_next_key (r_length - 1) of
                   Inl e \<Rightarrow> Inl e
                 | Inr (q_grams_from_next_key, pos2) \<Rightarrow>
                     accept_both st r_length counter_key [?g] q_grams_from_next_key pos2)
              else Inr (False, st\<lparr>rng_pos := rng_pos st + 1\<rparr>))
       else Inr (False, st\<lparr>rng_pos := rng_pos st + 1\<rparr>))"
    by (simp only: attempt_def full retry one order_refl simp_thms if_True sum.case prod.case)
  have 1: "\<exists>g ys pos. g \<in> set smallest \<and> int (length ys) = r_length - 1 \<and>
          set ys \<subseteq> set next_bucket \<and>
          attempt rng r_length counter_key smallest try_counter st =
            accept_both st r_length counter_key [g] ys pos"
    if a: "r_length - 1 \<noteq> 0 \<and> map_of (q_gram_counter st) (counter_key + 1) = Some next_bucket \<and>
       r_length - 1 \<le> int (length next_bucket)" for next_bucket
  proof -
    have "0 \<le> r_length - 1" using full len by linarith
    then obtain ys pos2 where ys:
      "random_sample rng (rng_pos st + 1) next_bucket (r_length - 1) = Inr (ys, pos2)"
      using a by (simp add: random_sample_def)
    note p = random_sample_props[OF ys]
    have "attempt rng r_length counter_key smallest try_counter st =
            accept_both st r_length counter_key [?g] ys pos2"
      unfolding start using a ys by simp
    then show ?thesis using g p(1,2) by blast
  qed
  have 2: "attempt rng r_length counter_key smallest try_counter st =
         Inr (False, st\<lparr>rng_pos := rng_pos st + 1\<rparr>)"
    if a: "r_length - 1 = 0 \<or>
       (map_of (q_gram_counter st) (counter_key + 1) = Some next_bucket \<and>
        int (length next_bucket) < r_length - 1)" for next_bucket
    unfolding start using a by auto
  show ?thesis using 1 2 toy_alphabet_never_returns by blast
qed

text \<open>
  Claim C8 as the specification states it fails: for the toy alphabet the generator does
  not terminate, so it returns no four sets. Only two distinct sets of one q-gram exist,
  and a duplicate is rejected.
\<close>

theorem toy_alphabet_counterexample:
  "\<not> (\<exists>fuel rng sets. ref_set_generator fuel rng 1 [''ab'', ''ba''] 2 = Some (Inr sets))"
  by (simp add: toy_alphabet_never_returns)

text \<open>
  A run on six q-grams in which the policy applies: it passes through \<open>variety_state\<close>,
  and its sixth set has one q-gram of the bucket of key 1 and one of the bucket of key 2.
\<close>

lemma six_q_grams_run:
  "ref_set_generator 20 variety_stream 2 six_q_grams 2 =
     Some (Inr [{|''aa'', ''bb''|}, {|''cc'', ''dd''|}, {|''ee'', ''ff''|}, {|''cc'', ''ee''|},
                {|''dd'', ''ff''|}, {|''aa'', ''cc''|}, {|''bb'', ''ee''|}])"
  by code_simp

lemma variety_state_reached:
  "attempt variety_stream 2 1 [''aa'', ''bb''] 1 (variety_state\<lparr>rng_pos := 10\<rparr>) =
     Inr (False, variety_state)"
  by code_simp

text \<open>Claim C8 as amended, at \<open>variety_state\<close>, in the second attempt.\<close>

theorem variety_policy_without_fallback_witness:
  "\<exists>g ys pos. g \<in> set [''aa'', ''bb''] \<and> int (length ys) = 2 - 1 \<and>
     set ys \<subseteq> set [''cc'', ''ee'', ''dd'', ''ff''] \<and>
     attempt variety_stream 2 1 [''aa'', ''bb''] 2 variety_state =
       accept_both variety_state 2 1 [g] ys pos"
proof -
  have bucket: "map_of (q_gram_counter variety_state) 1 = Some [''aa'', ''bb'']"
    by (simp add: variety_state_def)
  have next_bucket: "map_of (q_gram_counter variety_state) (1 + 1) =
      Some [''cc'', ''ee'', ''dd'', ''ff'']"
    by (simp add: variety_state_def)
  have full: "int (length [''aa'', ''bb'']) = 2" and retry: "(1::int) < 2"
    and ne: "[''aa'', ''bb''] \<noteq> []"
    by simp_all
  show ?thesis
    using variety_policy_without_fallback[OF bucket full retry ne, of variety_stream] next_bucket
    by force
qed


end
